theory Spec2Isabelle
  imports Main
begin

section \<open>Values and outcomes\<close>

text \<open>
  The container of \<^verbatim>\<open>framework/container/container.go\<close> maps string keys to
  factories and to built values of Go type \<^verbatim>\<open>any\<close>. A value is modelled by a small
  universe: the nil interface, the pointer to the container itself, scalars, and heap
  pointers compared by address (identity).
\<close>

type_synonym key = string

datatype val = VNil | VContainer | VInt int | VStr string | VPtr nat

text \<open>
  A call of one goroutine ends in one of four ways. It returns. It panics, and the
  deferred calls of the frames it unwinds are run: \<open>NoBinding\<close> is the panic of
  \<^verbatim>\<open>make\<close> for an unregistered abstract, \<open>SelfAlias\<close> the one of \<^verbatim>\<open>Alias\<close>,
  \<open>NilCall\<close> the runtime panic of calling a nil func value, \<open>NilMapWrite\<close> the one of
  assigning to an entry of a nil map, \<open>SliceBounds\<close> the one of re-slicing an empty
  build stack, \<open>UserPanic\<close> a panic raised by user code. It halts: the goroutine
  blocks for ever on the container's lock (\<open>Deadlock\<close>), or the runtime ends the
  process with the fatal error of unlocking a lock that is not held; no deferred call
  is run and nothing can recover. Or the nesting of \<^verbatim>\<open>make\<close> never ends
  (\<open>Diverge\<close>). The first three keep the heap as it is at that moment.
\<close>

datatype panic = NoBinding key | SelfAlias key | NilCall | NilMapWrite | SliceBounds | UserPanic string

datatype halt = Deadlock | UnlockOfUnlocked | RUnlockOfUnlocked

datatype ('a, 's) outcome = Return 'a 's | Panic panic 's | Halt halt 's | Diverge

definition andThen :: "('a, 's) outcome \<Rightarrow> ('a \<Rightarrow> 's \<Rightarrow> ('b, 's) outcome) \<Rightarrow> ('b, 's) outcome" where
  "andThen m k =
     (case m of Return a s \<Rightarrow> k a s | Panic e s \<Rightarrow> Panic e s | Halt h s \<Rightarrow> Halt h s
      | Diverge \<Rightarrow> Diverge)"

text \<open>
  \<^verbatim>\<open>defer d()\<close> around a body: \<open>d\<close> runs when the body returns and when it panics,
  and the panic then goes on; a body that halts runs nothing.
\<close>

definition deferring :: "('s \<Rightarrow> (unit, 's) outcome) \<Rightarrow> ('a, 's) outcome \<Rightarrow> ('a, 's) outcome" where
  "deferring d m =
     (case m of
        Return a s \<Rightarrow> andThen (d s) (\<lambda>_ s'. Return a s')
      | Panic e s \<Rightarrow> andThen (d s) (\<lambda>_ s'. Panic e s')
      | Halt h s \<Rightarrow> Halt h s
      | Diverge \<Rightarrow> Diverge)"

section \<open>The data model\<close>

text \<open>
  A Go map is nil or a table. Reading and deleting work on a nil map as on an empty
  table; assigning to an entry of a nil map panics, which the callers of \<open>mapAssign\<close>
  check first. The zero value \<^verbatim>\<open>new(Container)\<close> has nil maps; \<^verbatim>\<open>Flush\<close> and
  \<^verbatim>\<open>New\<close> make them.
\<close>

type_synonym ('k, 'v) gomap = "('k \<rightharpoonup> 'v) option"

definition mapRead :: "('k, 'v) gomap \<Rightarrow> 'k \<Rightarrow> 'v option" where
  "mapRead m k = (case m of None \<Rightarrow> None | Some t \<Rightarrow> t k)"

definition mapDelete :: "('k, 'v) gomap \<Rightarrow> 'k \<Rightarrow> ('k, 'v) gomap" where
  "mapDelete m k = (case m of None \<Rightarrow> None | Some t \<Rightarrow> Some (t(k := None)))"

definition mapAssign :: "('k, 'v) gomap \<Rightarrow> 'k \<Rightarrow> 'v \<Rightarrow> ('k, 'v) gomap" where
  "mapAssign m k v = (case m of None \<Rightarrow> None | Some t \<Rightarrow> Some (t(k \<mapsto> v)))"

text \<open>Reading a Go map of slices at a missing key gives the nil slice.\<close>

definition slice_at :: "(key, 'a list) gomap \<Rightarrow> key \<Rightarrow> 'a list" where
  "slice_at m k = (case mapRead m k of None \<Rightarrow> [] | Some xs \<Rightarrow> xs)"

text \<open>
  A \<^verbatim>\<open>Factory\<close> is a Go func value. User closures are named by an identifier and
  interpreted by the environment below; the two closures that the repository itself
  creates are constructors of their own: the one of \<^verbatim>\<open>GiveValue\<close>
  (\<^verbatim>\<open>contextual.go\<close>) and the lazy trigger of \<^verbatim>\<open>interceptDeferred\<close>
  (\<^verbatim>\<open>provider.go\<close>), which captures the provider and the abstract.
\<close>

datatype factory = NilFactory | UserFactory nat | GiveValueFn val | DeferredFn nat key

record binding =
  factory :: factory
  singleton :: bool

text \<open>
  \<^verbatim>\<open>sync.RWMutex\<close>, as one goroutine sees it: held by a writer or not, and the number
  of read locks held. It is not reentrant.
\<close>

record rwmutex =
  writer :: bool
  readers :: nat

record container =
  mu :: rwmutex
  bindings :: "(key, binding) gomap"
  instances :: "(key, val) gomap"
  aliases :: "(key, key) gomap"
  extenders :: "(key, nat list) gomap"
  tags :: "(key, key list) gomap"
  contextual :: "(key, key \<rightharpoonup> factory) gomap"
  reboundCallbacks :: "(key, nat list) gomap"
  afterResolving :: "nat list"
  buildStack :: "key list"

text \<open>A \<^verbatim>\<open>ProviderRegistry\<close> as \<^verbatim>\<open>NewProviderRegistry\<close> makes it: its two maps are made.\<close>

record registry =
  eager :: "nat list"
  deferred :: "key \<rightharpoonup> nat"
  booted :: bool
  registered :: "nat \<Rightarrow> bool"

text \<open>
  The heap that user closures can reach: the container, the provider registry bound to
  it, and the closures' own captured variables (\<open>user\<close>).
\<close>

record 'u world =
  app :: container
  reg :: registry
  user :: 'u

text \<open>
  User code is a parameter. A closure is any function from the heap to an outcome; it
  may do whatever Go code holding the container can do, including calling back into it.
  \<^verbatim>\<open>Provides()\<close> and \<^verbatim>\<open>IsDeferred()\<close> are taken to be constant per provider.
\<close>

record 'u env =
  factoryFn :: "nat \<Rightarrow> 'u world \<Rightarrow> (val, 'u world) outcome"
  extenderFn :: "nat \<Rightarrow> val \<Rightarrow> 'u world \<Rightarrow> (val, 'u world) outcome"
  reboundFn :: "nat \<Rightarrow> val \<Rightarrow> 'u world \<Rightarrow> (unit, 'u world) outcome"
  afterFn :: "nat \<Rightarrow> key \<Rightarrow> val \<Rightarrow> 'u world \<Rightarrow> (unit, 'u world) outcome"
  provRegister :: "nat \<Rightarrow> 'u world \<Rightarrow> (unit, 'u world) outcome"
  provBoot :: "nat \<Rightarrow> 'u world \<Rightarrow> (unit, 'u world) outcome"
  provProvides :: "nat \<Rightarrow> key list"
  provIsDeferred :: "nat \<Rightarrow> bool"

section \<open>The lock\<close>

text \<open>
  The four operations of \<^verbatim>\<open>c.mu\<close> for a single goroutine. \<^verbatim>\<open>Lock\<close> waits until
  no writer and no reader holds the lock, \<^verbatim>\<open>RLock\<close> until no writer does; with
  nobody else to release it, waiting is for ever. Unlocking what is not held is a fatal
  error of the runtime.
\<close>

definition Lock :: "'u world \<Rightarrow> (unit, 'u world) outcome" where
  "Lock w =
     (if writer (mu (app w)) \<or> 0 < readers (mu (app w)) then Halt Deadlock w
      else Return () (w\<lparr>app := (app w)\<lparr>mu := (mu (app w))\<lparr>writer := True\<rparr>\<rparr>\<rparr>))"

definition Unlock :: "'u world \<Rightarrow> (unit, 'u world) outcome" where
  "Unlock w =
     (if writer (mu (app w)) then Return () (w\<lparr>app := (app w)\<lparr>mu := (mu (app w))\<lparr>writer := False\<rparr>\<rparr>\<rparr>)
      else Halt UnlockOfUnlocked w)"

definition RLock :: "'u world \<Rightarrow> (unit, 'u world) outcome" where
  "RLock w =
     (if writer (mu (app w)) then Halt Deadlock w
      else Return () (w\<lparr>app := (app w)\<lparr>mu := (mu (app w))\<lparr>readers := Suc (readers (mu (app w)))\<rparr>\<rparr>\<rparr>))"

definition RUnlock :: "'u world \<Rightarrow> (unit, 'u world) outcome" where
  "RUnlock w =
     (if 0 < readers (mu (app w)) then
        Return () (w\<lparr>app := (app w)\<lparr>mu := (mu (app w))\<lparr>readers := readers (mu (app w)) - 1\<rparr>\<rparr>\<rparr>)
      else Halt RUnlockOfUnlocked w)"

text \<open>\<^verbatim>\<open>c.mu.Lock(); defer c.mu.Unlock()\<close> and then the body.\<close>

definition locked :: "('u world \<Rightarrow> ('a, 'u world) outcome) \<Rightarrow> 'u world \<Rightarrow> ('a, 'u world) outcome" where
  "locked body w = andThen (Lock w) (\<lambda>_ w1. deferring Unlock (body w1))"

text \<open>
  \<^verbatim>\<open>c.mu.RLock(); x := f(c); c.mu.RUnlock()\<close>, for a read \<open>f\<close> that cannot panic;
  whether the unlock is deferred (as in \<^verbatim>\<open>getContextual\<close>) or a statement then makes
  no difference.
\<close>

definition reading :: "(container \<Rightarrow> 'a) \<Rightarrow> 'u world \<Rightarrow> ('a, 'u world) outcome" where
  "reading f w =
     andThen (RLock w) (\<lambda>_ w1. andThen (RUnlock w1) (\<lambda>_ w2. Return (f (app w1)) w2))"

section \<open>Container: lookups and observer loops\<close>

definition canonical :: "container \<Rightarrow> key \<Rightarrow> key" where
  "canonical c abstract = (case mapRead (aliases c) abstract of Some target \<Rightarrow> target | None \<Rightarrow> abstract)"

definition getContextual :: "key \<Rightarrow> key \<Rightarrow> 'u world \<Rightarrow> (factory, 'u world) outcome" where
  "getContextual concrete abstract w =
     reading (\<lambda>c. case mapRead (contextual c) concrete of
                    Some m \<Rightarrow> (case m abstract of Some f \<Rightarrow> f | None \<Rightarrow> NilFactory)
                  | None \<Rightarrow> NilFactory) w"

fun runRebound :: "'u env \<Rightarrow> nat list \<Rightarrow> val \<Rightarrow> 'u world \<Rightarrow> (unit, 'u world) outcome" where
  "runRebound env [] v w = Return () w"
| "runRebound env (cb # cbs) v w = andThen (reboundFn env cb v w) (\<lambda>_ w'. runRebound env cbs v w')"

definition fireRebound :: "'u env \<Rightarrow> key \<Rightarrow> val \<Rightarrow> 'u world \<Rightarrow> (unit, 'u world) outcome" where
  "fireRebound env abstract v w =
     andThen (reading (\<lambda>c. slice_at (reboundCallbacks c) abstract) w)
       (\<lambda>cbs w1. runRebound env cbs v w1)"

fun runAfter :: "'u env \<Rightarrow> nat list \<Rightarrow> key \<Rightarrow> val \<Rightarrow> 'u world \<Rightarrow> (unit, 'u world) outcome" where
  "runAfter env [] k v w = Return () w"
| "runAfter env (cb # cbs) k v w = andThen (afterFn env cb k v w) (\<lambda>_ w'. runAfter env cbs k v w')"

definition fireAfterResolving :: "'u env \<Rightarrow> key \<Rightarrow> val \<Rightarrow> 'u world \<Rightarrow> (unit, 'u world) outcome" where
  "fireAfterResolving env abstract v w =
     andThen (reading afterResolving w) (\<lambda>cbs w1. runAfter env cbs abstract v w1)"

fun runExtenders :: "'u env \<Rightarrow> nat list \<Rightarrow> val \<Rightarrow> 'u world \<Rightarrow> (val, 'u world) outcome" where
  "runExtenders env [] v w = Return v w"
| "runExtenders env (ext # exts) v w =
     andThen (extenderFn env ext v w) (\<lambda>v' w'. runExtenders env exts v' w')"

text \<open>\<^verbatim>\<open>applyExtenders\<close> takes no lock of its own; the slice is read once, before the loop.\<close>

definition applyExtenders :: "'u env \<Rightarrow> key \<Rightarrow> val \<Rightarrow> 'u world \<Rightarrow> (val, 'u world) outcome" where
  "applyExtenders env k v w = runExtenders env (slice_at (extenders (app w)) k) v w"

section \<open>Container: resolution\<close>

text \<open>
  Calling a factory. The first argument \<open>mk\<close> is the resolver that a \<^verbatim>\<open>c.Make\<close>
  inside a closure of the repository reaches. The \<open>DeferredFn\<close> case is the closure of
  \<^verbatim>\<open>interceptDeferred\<close>.
\<close>

definition callFactory ::
  "(key \<Rightarrow> 'u world \<Rightarrow> (val, 'u world) outcome) \<Rightarrow> 'u env \<Rightarrow> factory \<Rightarrow> 'u world \<Rightarrow> (val, 'u world) outcome" where
  "callFactory mk env f w =
     (case f of
        NilFactory \<Rightarrow> Panic NilCall w
      | UserFactory i \<Rightarrow> factoryFn env i w
      | GiveValueFn v \<Rightarrow> Return v w
      | DeferredFn p a \<Rightarrow>
          andThen
            (if \<not> registered (reg w) p \<or> deferred (reg w) a \<noteq> None then
               andThen (provRegister env p w)
                 (\<lambda>_ w1.
                    let w2 = w1\<lparr>reg := (reg w1)\<lparr>deferred := (deferred (reg w1))(a := None)\<rparr>\<rparr>
                    in if booted (reg w2) then provBoot env p w2 else Return () w2)
             else Return () w)
            (\<lambda>_ w3. mk a w3))"

definition popStack :: "'u world \<Rightarrow> (unit, 'u world) outcome" where
  "popStack w =
     (if buildStack (app w) = [] then Panic SliceBounds w
      else Return () (w\<lparr>app := (app w)\<lparr>buildStack := butlast (buildStack (app w))\<rparr>\<rparr>))"

text \<open>
  The write of \<^verbatim>\<open>runFactory\<close> to the instance cache, between \<^verbatim>\<open>Lock\<close> and
  \<^verbatim>\<open>Unlock\<close> as statements: a panic of the assignment leaves the lock held.
\<close>

definition cacheInstance :: "key \<Rightarrow> val \<Rightarrow> 'u world \<Rightarrow> (unit, 'u world) outcome" where
  "cacheInstance k v w =
     andThen (Lock w)
       (\<lambda>_ w1. if instances (app w1) = None then Panic NilMapWrite w1
               else Unlock (w1\<lparr>app := (app w1)\<lparr>instances := mapAssign (instances (app w1)) k v\<rparr>\<rparr>))"

definition runFactory ::
  "(key \<Rightarrow> 'u world \<Rightarrow> (val, 'u world) outcome) \<Rightarrow> 'u env \<Rightarrow> key \<Rightarrow> factory \<Rightarrow> bool \<Rightarrow> 'u world
     \<Rightarrow> (val, 'u world) outcome" where
  "runFactory mk env k f sing w =
     andThen (callFactory mk env f (w\<lparr>app := (app w)\<lparr>buildStack := buildStack (app w) @ [k]\<rparr>\<rparr>))
       (\<lambda>inst w1.
          andThen (popStack w1)
            (\<lambda>_ w2.
               andThen (reading (\<lambda>c. slice_at (extenders c) k) w2)
                 (\<lambda>exts w3.
                    andThen (if exts \<noteq> [] then applyExtenders env k inst w3 else Return inst w3)
                      (\<lambda>inst' w4.
                         andThen (if sing then cacheInstance k inst' w4 else Return () w4)
                           (\<lambda>_ w5.
                              andThen (fireAfterResolving env k inst' w5)
                                (\<lambda>_ w6. Return inst' w6))))))"

text \<open>
  One activation of \<^verbatim>\<open>Container.make\<close>, with the resolver for nested calls as a
  parameter: the instance cache, then the contextual entry for the top of the build
  stack and the name as it was passed in, then the binding.
\<close>

definition make_body ::
  "(key \<Rightarrow> 'u world \<Rightarrow> (val, 'u world) outcome) \<Rightarrow> 'u env \<Rightarrow> key \<Rightarrow> 'u world \<Rightarrow> (val, 'u world) outcome" where
  "make_body mk env abstract w =
     (let k = canonical (app w) abstract in
      andThen (reading (\<lambda>c. mapRead (instances c) k) w)
        (\<lambda>hit w1.
           case hit of
             Some inst \<Rightarrow> Return inst w1
           | None \<Rightarrow>
               andThen
                 (if buildStack (app w1) \<noteq> [] then
                    getContextual (last (buildStack (app w1))) abstract w1
                  else Return NilFactory w1)
                 (\<lambda>f w2.
                    if f \<noteq> NilFactory then runFactory mk env k f False w2
                    else
                      andThen (reading (\<lambda>c. mapRead (bindings c) k) w2)
                        (\<lambda>b w3.
                           case b of
                             None \<Rightarrow> Panic (NoBinding abstract) w3
                           | Some b \<Rightarrow> runFactory mk env k (factory b) (singleton b) w3))))"

text \<open>
  \<^verbatim>\<open>make\<close> is recursive through the lazy trigger of a deferred provider, and that
  recursion need not end (a provider that never binds what it provides). The first
  argument bounds the nesting depth of \<^verbatim>\<open>make\<close> activations; running out is
  \<open>Diverge\<close>.
\<close>

primrec make :: "nat \<Rightarrow> 'u env \<Rightarrow> key \<Rightarrow> 'u world \<Rightarrow> (val, 'u world) outcome" where
  "make 0 env abstract w = Diverge"
| "make (Suc n) env abstract w = make_body (make n env) env abstract w"

definition Make :: "nat \<Rightarrow> 'u env \<Rightarrow> key \<Rightarrow> 'u world \<Rightarrow> (val, 'u world) outcome" where
  "Make n env abstract w = make n env abstract w"

section \<open>Container: registration\<close>

text \<open>
  \<^verbatim>\<open>bind\<close> runs under the lock of its caller: the cached instance is dropped and the
  binding replaced; when a non-nil instance was cached, the lock is released, the
  abstract is resolved again, the rebound callbacks of the name that was passed in are
  fired with the result, and the lock is taken again.
\<close>

definition bind ::
  "(key \<Rightarrow> 'u world \<Rightarrow> (val, 'u world) outcome) \<Rightarrow> 'u env \<Rightarrow> key \<Rightarrow> factory \<Rightarrow> bool \<Rightarrow> 'u world
     \<Rightarrow> (unit, 'u world) outcome" where
  "bind mk env abstract f sing w =
     (let k = canonical (app w) abstract;
          wasBound = (case mapRead (instances (app w)) k of Some v \<Rightarrow> v \<noteq> VNil | None \<Rightarrow> False);
          w1 = w\<lparr>app := (app w)\<lparr>instances := mapDelete (instances (app w)) k\<rparr>\<rparr>
      in if bindings (app w1) = None then Panic NilMapWrite w1
         else
           (let w2 = w1\<lparr>app := (app w1)\<lparr>bindings :=
                          mapAssign (bindings (app w1)) k \<lparr>factory = f, singleton = sing\<rparr>\<rparr>\<rparr>
            in if wasBound then
                 andThen (Unlock w2)
                   (\<lambda>_ w3. andThen (mk abstract w3)
                      (\<lambda>v w4. andThen (fireRebound env abstract v w4) (\<lambda>_ w5. Lock w5)))
               else Return () w2))"

definition Bind :: "nat \<Rightarrow> 'u env \<Rightarrow> key \<Rightarrow> factory \<Rightarrow> 'u world \<Rightarrow> (unit, 'u world) outcome" where
  "Bind n env abstract f w = locked (bind (make n env) env abstract f False) w"

definition Singleton :: "nat \<Rightarrow> 'u env \<Rightarrow> key \<Rightarrow> factory \<Rightarrow> 'u world \<Rightarrow> (unit, 'u world) outcome" where
  "Singleton n env abstract f w = locked (bind (make n env) env abstract f True) w"

text \<open>
  \<^verbatim>\<open>Instance\<close> calls \<^verbatim>\<open>fireRebound\<close> without releasing its lock.
\<close>

definition Instance :: "'u env \<Rightarrow> key \<Rightarrow> val \<Rightarrow> 'u world \<Rightarrow> (unit, 'u world) outcome" where
  "Instance env abstract v w =
     locked
       (\<lambda>w1.
          let c1 = (app w1)\<lparr>bindings := mapDelete (bindings (app w1)) (canonical (app w1) abstract)\<rparr>;
              k = canonical c1 abstract
          in if instances c1 = None then Panic NilMapWrite (w1\<lparr>app := c1\<rparr>)
             else fireRebound env abstract v
                    (w1\<lparr>app := c1\<lparr>instances := mapAssign (instances c1) k v\<rparr>\<rparr>))
       w"

definition Alias :: "key \<Rightarrow> key \<Rightarrow> 'u world \<Rightarrow> (unit, 'u world) outcome" where
  "Alias abstract alias w =
     locked
       (\<lambda>w1.
          if abstract = alias then Panic (SelfAlias abstract) w1
          else if aliases (app w1) = None then Panic NilMapWrite w1
          else Return ()
                 (w1\<lparr>app := (app w1)\<lparr>aliases :=
                        mapAssign (aliases (app w1)) alias (canonical (app w1) abstract)\<rparr>\<rparr>))
       w"

text \<open>
  \<^verbatim>\<open>When(concrete).Needs(needs).Give(factory)\<close>. The builder only carries the two
  names to \<^verbatim>\<open>Give\<close>, which makes the inner map when there is none and writes the
  entry.
\<close>

definition Give :: "key \<Rightarrow> key \<Rightarrow> factory \<Rightarrow> 'u world \<Rightarrow> (unit, 'u world) outcome" where
  "Give concrete needs f w =
     locked
       (\<lambda>w1.
          if contextual (app w1) = None then Panic NilMapWrite w1
          else
            (let m = (case mapRead (contextual (app w1)) concrete of None \<Rightarrow> Map.empty | Some m \<Rightarrow> m)
             in Return ()
                  (w1\<lparr>app := (app w1)\<lparr>contextual :=
                         mapAssign (contextual (app w1)) concrete (m(needs \<mapsto> f))\<rparr>\<rparr>)))
       w"

definition GiveValue :: "key \<Rightarrow> key \<Rightarrow> val \<Rightarrow> 'u world \<Rightarrow> (unit, 'u world) outcome" where
  "GiveValue concrete needs v w = Give concrete needs (GiveValueFn v) w"

text \<open>
  \<^verbatim>\<open>Extend\<close> runs the extenders under its lock, and releases it around
  \<^verbatim>\<open>fireRebound\<close>.
\<close>

definition Extend :: "'u env \<Rightarrow> key \<Rightarrow> nat \<Rightarrow> 'u world \<Rightarrow> (unit, 'u world) outcome" where
  "Extend env abstract fn w =
     locked
       (\<lambda>w1.
          let k = canonical (app w1) abstract
          in if extenders (app w1) = None then Panic NilMapWrite w1
             else
               (let w2 = w1\<lparr>app := (app w1)\<lparr>extenders :=
                              mapAssign (extenders (app w1)) k (slice_at (extenders (app w1)) k @ [fn])\<rparr>\<rparr>
                in case mapRead (instances (app w2)) k of
                     None \<Rightarrow> Return () w2
                   | Some inst \<Rightarrow>
                       andThen (applyExtenders env k inst w2)
                         (\<lambda>extended w3.
                            if instances (app w3) = None then Panic NilMapWrite w3
                            else
                              andThen
                                (Unlock (w3\<lparr>app := (app w3)\<lparr>instances :=
                                               mapAssign (instances (app w3)) k extended\<rparr>\<rparr>))
                                (\<lambda>_ w4. andThen (fireRebound env abstract extended w4)
                                           (\<lambda>_ w5. Lock w5)))))
       w"

text \<open>\<^verbatim>\<open>Flush\<close> makes six maps anew. It does not touch the other fields.\<close>

definition Flush :: "'u world \<Rightarrow> (unit, 'u world) outcome" where
  "Flush w =
     locked
       (\<lambda>w1. Return ()
          (w1\<lparr>app := (app w1)\<lparr>bindings := Some Map.empty, instances := Some Map.empty,
                               aliases := Some Map.empty, extenders := Some Map.empty,
                               tags := Some Map.empty, contextual := Some Map.empty\<rparr>\<rparr>))
       w"

definition Rebinding :: "key \<Rightarrow> nat \<Rightarrow> 'u world \<Rightarrow> (unit, 'u world) outcome" where
  "Rebinding abstract cb w =
     locked
       (\<lambda>w1.
          if reboundCallbacks (app w1) = None then Panic NilMapWrite w1
          else Return ()
                 (w1\<lparr>app := (app w1)\<lparr>reboundCallbacks :=
                        mapAssign (reboundCallbacks (app w1)) abstract
                          (slice_at (reboundCallbacks (app w1)) abstract @ [cb])\<rparr>\<rparr>))
       w"

definition AfterResolving :: "nat \<Rightarrow> 'u world \<Rightarrow> (unit, 'u world) outcome" where
  "AfterResolving cb w =
     locked (\<lambda>w1. Return () (w1\<lparr>app := (app w1)\<lparr>afterResolving := afterResolving (app w1) @ [cb]\<rparr>\<rparr>)) w"

section \<open>Construction\<close>

text \<open>
  The zero value of \<^verbatim>\<open>Container\<close>, the container as \<^verbatim>\<open>New\<close> has made it when it
  calls \<^verbatim>\<open>Instance\<close>, and the registry of \<^verbatim>\<open>NewProviderRegistry\<close>.
\<close>

definition unlocked :: rwmutex where
  "unlocked = \<lparr>writer = False, readers = 0\<rparr>"

definition zeroContainer :: container where
  "zeroContainer =
     \<lparr>mu = unlocked, bindings = None, instances = None, aliases = None, extenders = None,
      tags = None, contextual = None, reboundCallbacks = None, afterResolving = [],
      buildStack = []\<rparr>"

definition madeContainer :: container where
  "madeContainer =
     \<lparr>mu = unlocked, bindings = Some Map.empty, instances = Some Map.empty,
      aliases = Some Map.empty, extenders = Some Map.empty, tags = Some Map.empty,
      contextual = Some Map.empty, reboundCallbacks = Some Map.empty, afterResolving = [],
      buildStack = []\<rparr>"

definition NewProviderRegistry :: registry where
  "NewProviderRegistry = \<lparr>eager = [], deferred = Map.empty, booted = False, registered = (\<lambda>_. False)\<rparr>"

definition New :: "'u env \<Rightarrow> 'u \<Rightarrow> (unit, 'u world) outcome" where
  "New env u =
     Instance env ''container'' VContainer
       \<lparr>app = madeContainer, reg = NewProviderRegistry, user = u\<rparr>"

section \<open>Provider registry\<close>

text \<open>\<^verbatim>\<open>interceptDeferred\<close> binds the lazy trigger through the exported \<^verbatim>\<open>Bind\<close>.\<close>

fun interceptLoop :: "nat \<Rightarrow> 'u env \<Rightarrow> nat \<Rightarrow> key list \<Rightarrow> 'u world \<Rightarrow> (unit, 'u world) outcome" where
  "interceptLoop n env p [] w = Return () w"
| "interceptLoop n env p (a # as) w =
     andThen (Bind n env a (DeferredFn p a) w) (\<lambda>_ w'. interceptLoop n env p as w')"

definition interceptDeferred :: "nat \<Rightarrow> 'u env \<Rightarrow> nat \<Rightarrow> 'u world \<Rightarrow> (unit, 'u world) outcome" where
  "interceptDeferred n env p w = interceptLoop n env p (provProvides env p) w"

definition Register :: "nat \<Rightarrow> 'u env \<Rightarrow> nat \<Rightarrow> 'u world \<Rightarrow> (unit, 'u world) outcome" where
  "Register n env p w =
     (if registered (reg w) p then Return () w
      else
        (let w1 = w\<lparr>reg := (reg w)\<lparr>registered := (registered (reg w))(p := True)\<rparr>\<rparr>
         in if provIsDeferred env p then
              interceptDeferred n env p
                (w1\<lparr>reg := (reg w1)\<lparr>deferred :=
                      foldl (\<lambda>m a. m(a \<mapsto> p)) (deferred (reg w1)) (provProvides env p)\<rparr>\<rparr>)
            else
              andThen (provRegister env p w1)
                (\<lambda>_ w2.
                   let w3 = w2\<lparr>reg := (reg w2)\<lparr>eager := eager (reg w2) @ [p]\<rparr>\<rparr>
                   in if booted (reg w3) then provBoot env p w3 else Return () w3)))"

fun bootLoop :: "'u env \<Rightarrow> nat list \<Rightarrow> 'u world \<Rightarrow> (unit, 'u world) outcome" where
  "bootLoop env [] w = Return () w"
| "bootLoop env (p # ps) w = andThen (provBoot env p w) (\<lambda>_ w'. bootLoop env ps w')"

definition Boot :: "'u env \<Rightarrow> 'u world \<Rightarrow> (unit, 'u world) outcome" where
  "Boot env w =
     (if booted (reg w) then Return () w
      else bootLoop env (eager (reg w)) (w\<lparr>reg := (reg w)\<lparr>booted := True\<rparr>\<rparr>))"

section \<open>Frame conditions on user code\<close>

text \<open>
  \<open>keeps g s m\<close>: the outcome \<open>m\<close> of a call started in \<open>s\<close> ends, by return, by
  panic or by halting, in a state with the same observation \<open>g\<close>.
\<close>

definition keeps :: "('s \<Rightarrow> 'x) \<Rightarrow> 's \<Rightarrow> ('a, 's) outcome \<Rightarrow> bool" where
  "keeps g s m =
     (case m of Return _ s' \<Rightarrow> g s' = g s | Panic _ s' \<Rightarrow> g s' = g s | Halt _ s' \<Rightarrow> g s' = g s
      | Diverge \<Rightarrow> True)"

text \<open>
  The closures that resolution calls (factories, extenders, after-resolving observers and
  the methods of providers) leave \<open>g\<close> as it is.
\<close>

definition builders_keep :: "('u world \<Rightarrow> 'x) \<Rightarrow> 'u env \<Rightarrow> bool" where
  "builders_keep g env =
     ((\<forall>i w. keeps g w (factoryFn env i w)) \<and> (\<forall>i v w. keeps g w (extenderFn env i v w))
      \<and> (\<forall>i k v w. keeps g w (afterFn env i k v w))
      \<and> (\<forall>p w. keeps g w (provRegister env p w)) \<and> (\<forall>p w. keeps g w (provBoot env p w)))"

text \<open>Every closure of an environment, the rebound callbacks included, leaves \<open>g\<close> as it is.\<close>

definition closures_keep :: "('u world \<Rightarrow> 'x) \<Rightarrow> 'u env \<Rightarrow> bool" where
  "closures_keep g env = (builders_keep g env \<and> (\<forall>i v w. keeps g w (reboundFn env i v w)))"

text \<open>
  An observation that resolution itself never changes: it does not read the lock, the
  build stack, the instance cache or the deferred markers.
\<close>

definition resolution_blind :: "('u world \<Rightarrow> 'x) \<Rightarrow> bool" where
  "resolution_blind g =
     ((\<forall>w m. g (w\<lparr>app := (app w)\<lparr>mu := m\<rparr>\<rparr>) = g w)
      \<and> (\<forall>w s. g (w\<lparr>app := (app w)\<lparr>buildStack := s\<rparr>\<rparr>) = g w)
      \<and> (\<forall>w i. g (w\<lparr>app := (app w)\<lparr>instances := i\<rparr>\<rparr>) = g w)
      \<and> (\<forall>w d. g (w\<lparr>reg := (reg w)\<lparr>deferred := d\<rparr>\<rparr>) = g w))"

section \<open>Reading the heap\<close>

text \<open>
  The contextual entry for the key on top of the build stack and a needed name, if the
  table has one: what \<^verbatim>\<open>When(top).Needs(name).Give(f)\<close> has stored.
\<close>

definition entryOf :: "container \<Rightarrow> key \<Rightarrow> factory option" where
  "entryOf c name =
     (if buildStack c = [] then None
      else (case mapRead (contextual c) (last (buildStack c)) of None \<Rightarrow> None | Some m \<Rightarrow> m name))"

text \<open>
  The value an extender chain of pure decorators makes of a value: the decorators applied
  one after the other, in the order of the list.
\<close>

definition chain :: "(nat \<Rightarrow> val \<Rightarrow> val) \<Rightarrow> nat list \<Rightarrow> val \<Rightarrow> val" where
  "chain dec es v = foldl (\<lambda>x e. dec e x) v es"


text \<open>
  A call that ends in the panic of \<^verbatim>\<open>make\<close> for the unregistered abstract \<open>a\<close>.
\<close>

definition failsUnregistered :: "key \<Rightarrow> ('a, 's) outcome \<Rightarrow> bool" where
  "failsUnregistered a m = (case m of Panic e _ \<Rightarrow> e = NoBinding a | _ \<Rightarrow> False)"

text \<open>The lazy trigger of a deferred provider.\<close>

definition isTrigger :: "factory \<Rightarrow> bool" where
  "isTrigger f = (case f of DeferredFn _ _ \<Rightarrow> True | _ \<Rightarrow> False)"

text \<open>
  User code that takes part in a build and never ends in that panic: it neither raises
  it nor lets it through from a \<^verbatim>\<open>Make\<close> of its own.
\<close>

definition never_unregistered :: "key \<Rightarrow> 'u env \<Rightarrow> bool" where
  "never_unregistered a env =
     ((\<forall>i w. \<not> failsUnregistered a (factoryFn env i w))
      \<and> (\<forall>e v w. \<not> failsUnregistered a (extenderFn env e v w))
      \<and> (\<forall>cb k v w. \<not> failsUnregistered a (afterFn env cb k v w)))"

text \<open>
  The eager providers whose \<^verbatim>\<open>Boot\<close> has run, in the order of the runs, as the
  providers themselves have recorded it: \<open>lg\<close> reads the record in the closures' own
  state, as the stub providers of \<^verbatim>\<open>provider_test.go\<close> keep a \<^verbatim>\<open>bootCalled\<close>
  field.
\<close>

definition eagerBoots :: "'u env \<Rightarrow> ('u \<Rightarrow> nat list) \<Rightarrow> 'u world \<Rightarrow> nat list" where
  "eagerBoots env lg w = filter (\<lambda>p. \<not> provIsDeferred env p) (lg (user w))"

text \<open>
  What the lifecycle of eager providers is about: the boots recorded so far and the
  registry's \<^verbatim>\<open>booted\<close>, \<^verbatim>\<open>eager\<close> and \<^verbatim>\<open>registered\<close> fields.
\<close>

definition lifecycle :: "'u env \<Rightarrow> ('u \<Rightarrow> nat list) \<Rightarrow> 'u world \<Rightarrow> nat list \<times> bool \<times> nat list \<times> (nat \<Rightarrow> bool)" where
  "lifecycle env lg w = (eagerBoots env lg w, booted (reg w), eager (reg w), registered (reg w))"

text \<open>The eager list holds no provider twice, and only registered, eager ones.\<close>

definition registry_ok :: "'u env \<Rightarrow> registry \<Rightarrow> bool" where
  "registry_ok env r =
     (distinct (eager r) \<and> list_all (registered r) (eager r)
      \<and> list_all (\<lambda>p. \<not> provIsDeferred env p) (eager r))"

section \<open>Concrete environments and heaps\<close>

text \<open>An environment whose closures all return at once and change nothing.\<close>

definition quietEnv :: "'u env" where
  "quietEnv =
     \<lparr>factoryFn = (\<lambda>i w. Return (VPtr i) w), extenderFn = (\<lambda>i v w. Return v w),
      reboundFn = (\<lambda>i v w. Return () w), afterFn = (\<lambda>i k v w. Return () w),
      provRegister = (\<lambda>p w. Return () w), provBoot = (\<lambda>p w. Return () w),
      provProvides = (\<lambda>p. []), provIsDeferred = (\<lambda>p. False)\<rparr>"

text \<open>
  The heap after \<^verbatim>\<open>c := new(container.Container)\<close> and
  \<^verbatim>\<open>r := container.NewProviderRegistry(c)\<close>, and the one after a further
  \<^verbatim>\<open>c.Flush()\<close>: six tables are made, the table of rebound callbacks is still nil.
\<close>

definition zeroWorld :: "'u \<Rightarrow> 'u world" where
  "zeroWorld u = \<lparr>app = zeroContainer, reg = NewProviderRegistry, user = u\<rparr>"

definition flushedContainer :: container where
  "flushedContainer =
     \<lparr>mu = unlocked, bindings = Some Map.empty, instances = Some Map.empty,
      aliases = Some Map.empty, extenders = Some Map.empty, tags = Some Map.empty,
      contextual = Some Map.empty, reboundCallbacks = None, afterResolving = [],
      buildStack = []\<rparr>"

definition flushedWorld :: "'u \<Rightarrow> 'u world" where
  "flushedWorld u = \<lparr>app = flushedContainer, reg = NewProviderRegistry, user = u\<rparr>"

text \<open>
  A factory that resolves a dependency nobody registered: closure \<open>i\<close> of \<open>mailerEnv\<close> is
  \<^verbatim>\<open>func(c) any { logger := c.Make("logger"); return &Mailer{logger} }\<close>.
\<close>

definition mailerEnv :: "unit env" where
  "mailerEnv =
     quietEnv\<lparr>factoryFn :=
       (\<lambda>i w. andThen (Make (Suc 0) quietEnv ''logger'' w) (\<lambda>logger w'. Return (VPtr i) w'))\<rparr>"

text \<open>
  Two decorators of an integer service: extender 0 adds one, every other extender
  multiplies by ten. The factory of \<open>decorEnv\<close> returns the integer 1.
  \<open>decorOnce\<close> is the heap after \<^verbatim>\<open>c.Singleton("n", f)\<close>, \<^verbatim>\<open>c.Extend("n", e0)\<close>
  and \<^verbatim>\<open>c.Make("n")\<close> on a flushed container; \<open>decorTwice\<close> is the heap after a
  further \<^verbatim>\<open>c.Extend("n", e1)\<close>.
\<close>

definition decorate :: "nat \<Rightarrow> val \<Rightarrow> val" where
  "decorate e v = (case v of VInt n \<Rightarrow> (if e = 0 then VInt (n + 1) else VInt (n * 10)) | _ \<Rightarrow> v)"

definition decorEnv :: "unit env" where
  "decorEnv = quietEnv\<lparr>factoryFn := (\<lambda>i w. Return (VInt 1) w),
                        extenderFn := (\<lambda>e v w. Return (decorate e v) w)\<rparr>"

definition decorOnce :: "unit world" where
  "decorOnce =
     (flushedWorld ())\<lparr>app := flushedContainer
        \<lparr>bindings := Some [''n'' \<mapsto> \<lparr>factory = UserFactory 0, singleton = True\<rparr>],
         instances := Some [''n'' \<mapsto> VInt 2],
         extenders := Some [''n'' \<mapsto> [0]]\<rparr>\<rparr>"

definition decorTwice :: "unit world" where
  "decorTwice =
     (flushedWorld ())\<lparr>app := flushedContainer
        \<lparr>bindings := Some [''n'' \<mapsto> \<lparr>factory = UserFactory 0, singleton = True\<rparr>],
         instances := Some [''n'' \<mapsto> VInt 30],
         extenders := Some [''n'' \<mapsto> [0, 1]]\<rparr>\<rparr>"

text \<open>
  An after-resolving observer that writes what it is told into the closures' own log.
  \<open>observed\<close> is the heap after \<^verbatim>\<open>c.AfterResolving(cb)\<close> on the zero container.
\<close>

definition observerEnv :: "(key \<times> val) list env" where
  "observerEnv = quietEnv\<lparr>afterFn := (\<lambda>cb k v w. Return () (w\<lparr>user := user w @ [(k, v)]\<rparr>))\<rparr>"

definition observed :: "(key \<times> val) list world" where
  "observed = (zeroWorld [])\<lparr>app := zeroContainer\<lparr>afterResolving := [0]\<rparr>\<rparr>"

definition observedFlushed :: "(key \<times> val) list world" where
  "observedFlushed = (flushedWorld [])\<lparr>app := flushedContainer\<lparr>afterResolving := [0]\<rparr>\<rparr>"



text \<open>
  Factories that allocate: each call returns a pointer never returned before, counted in
  the closures' own state. \<open>allocBound\<close> is the heap after \<^verbatim>\<open>c.Singleton("cache", f)\<close>
  on a flushed container, \<open>allocResolved\<close> the one after the first \<^verbatim>\<open>c.Make("cache")\<close>.
\<close>

definition allocEnv :: "nat env" where
  "allocEnv = quietEnv\<lparr>factoryFn := (\<lambda>i w. Return (VPtr (user w)) (w\<lparr>user := Suc (user w)\<rparr>))\<rparr>"

definition allocBound :: "nat world" where
  "allocBound =
     (flushedWorld 0)\<lparr>app := flushedContainer
        \<lparr>bindings := Some [''cache'' \<mapsto> \<lparr>factory = UserFactory 0, singleton = True\<rparr>]\<rparr>\<rparr>"

definition allocResolved :: "nat world" where
  "allocResolved =
     (flushedWorld 1)\<lparr>app := flushedContainer
        \<lparr>bindings := Some [''cache'' \<mapsto> \<lparr>factory = UserFactory 0, singleton = True\<rparr>],
         instances := Some [''cache'' \<mapsto> VPtr 0]\<rparr>\<rparr>"

text \<open>
  A consumer that resolves its dependency twice and compares: closure 2 of \<open>twiceEnv\<close>
  is \<^verbatim>\<open>func(c) any { x := c.Make("Dep"); y := c.Make("Dep"); return x == y }\<close>, with
  1 for true and 0 for false; its other closures allocate. \<open>twiceWired\<close> is the heap
  after \<^verbatim>\<open>c.Singleton("Dep", f0)\<close>, \<^verbatim>\<open>c.When("Consumer").Needs("Dep").Give(f1)\<close> and
  \<^verbatim>\<open>c.Bind("Consumer", f2)\<close> on a flushed container.
\<close>

definition twiceEnv :: "nat env" where
  "twiceEnv =
     allocEnv\<lparr>factoryFn :=
       (\<lambda>i w. if i = 2 then
                 andThen (Make (Suc 0) allocEnv ''Dep'' w)
                   (\<lambda>x w1. andThen (Make (Suc 0) allocEnv ''Dep'' w1)
                      (\<lambda>y w2. Return (if x = y then VInt 1 else VInt 0) w2))
               else factoryFn allocEnv i w)\<rparr>"

definition twiceWired :: "nat world" where
  "twiceWired =
     (flushedWorld 0)\<lparr>app := flushedContainer
        \<lparr>bindings := Some [''Dep'' \<mapsto> \<lparr>factory = UserFactory 0, singleton = True\<rparr>,
                           ''Consumer'' \<mapsto> \<lparr>factory = UserFactory 2, singleton = False\<rparr>],
         contextual := Some [''Consumer'' \<mapsto> [''Dep'' \<mapsto> UserFactory 1]]\<rparr>\<rparr>"

text \<open>
  A factory that returns the nil interface; \<open>nilBound\<close> is the heap after
  \<^verbatim>\<open>c.Bind("x", f)\<close> on a flushed container.
\<close>

definition nilEnv :: "unit env" where
  "nilEnv = quietEnv\<lparr>factoryFn := (\<lambda>i w. Return VNil w)\<rparr>"

definition nilBound :: "unit world" where
  "nilBound =
     (flushedWorld ())\<lparr>app := flushedContainer
        \<lparr>bindings := Some [''x'' \<mapsto> \<lparr>factory = UserFactory 0, singleton = False\<rparr>]\<rparr>\<rparr>"

text \<open>
  A consumer whose factory returns what it is given for its dependency: every closure of
  \<open>consumerEnv\<close> is \<^verbatim>\<open>func(c) any { return c.Make("Dep") }\<close>. \<open>consumerOnly\<close> is the
  heap after \<^verbatim>\<open>c.Bind("Consumer", f)\<close> and
  \<^verbatim>\<open>c.When("Consumer").Needs("Dep").GiveValue(42)\<close> on a flushed container, with
  nothing registered for \<^verbatim>\<open>"Dep"\<close>.
\<close>

definition consumerEnv :: "unit env" where
  "consumerEnv = quietEnv\<lparr>factoryFn := (\<lambda>i w. Make (Suc 0) quietEnv ''Dep'' w)\<rparr>"

definition consumerOnly :: "unit world" where
  "consumerOnly =
     (flushedWorld ())\<lparr>app := flushedContainer
        \<lparr>bindings := Some [''Consumer'' \<mapsto> \<lparr>factory = UserFactory 0, singleton = False\<rparr>],
         contextual := Some [''Consumer'' \<mapsto> [''Dep'' \<mapsto> GiveValueFn (VInt 42)]]\<rparr>\<rparr>"

text \<open>
  A dependency with a default binding and a consumer with a contextual entry for it.
  Closure 0 of \<open>reportEnv\<close> is the factory of \<^verbatim>\<open>"Dep"\<close> and returns the pointer 0;
  closure 1 is the factory of \<^verbatim>\<open>"Consumer"\<close>,
  \<^verbatim>\<open>func(c) any { dep := c.Make("Dep"); c.Make("Mailer"); return dep }\<close>, and nothing
  is registered for \<^verbatim>\<open>"Mailer"\<close>; every other closure is
  \<^verbatim>\<open>func(c) any { return c.Make("Dep") }\<close>. \<open>reportWired\<close> is the heap after
  \<^verbatim>\<open>c.Singleton("Dep", f0)\<close>, \<^verbatim>\<open>c.Bind("Consumer", f1)\<close>, \<^verbatim>\<open>c.Bind("Other", f2)\<close>
  and \<^verbatim>\<open>c.When("Consumer").Needs("Dep").GiveValue(42)\<close> on a flushed container.
\<close>

definition reportEnv :: "unit env" where
  "reportEnv =
     quietEnv\<lparr>factoryFn :=
       (\<lambda>i w. if i = 0 then Return (VPtr 0) w
               else if i = 1 then
                 andThen (Make (Suc (Suc 0)) quietEnv ''Dep'' w)
                   (\<lambda>dep w1. andThen (Make (Suc 0) quietEnv ''Mailer'' w1) (\<lambda>_ w2. Return dep w2))
               else Make (Suc (Suc 0)) quietEnv ''Dep'' w)\<rparr>"

definition reportWired :: "unit world" where
  "reportWired =
     (flushedWorld ())\<lparr>app := flushedContainer
        \<lparr>bindings := Some [''Dep'' \<mapsto> \<lparr>factory = UserFactory 0, singleton = True\<rparr>,
                           ''Consumer'' \<mapsto> \<lparr>factory = UserFactory 1, singleton = False\<rparr>,
                           ''Other'' \<mapsto> \<lparr>factory = UserFactory 2, singleton = False\<rparr>],
         contextual := Some [''Consumer'' \<mapsto> [''Dep'' \<mapsto> GiveValueFn (VInt 42)]]\<rparr>\<rparr>"

definition reportStale :: "unit world" where
  "reportStale = reportWired\<lparr>app := (app reportWired)\<lparr>buildStack := [''Consumer'']\<rparr>\<rparr>"

text \<open>
  A deferred provider that counts the calls of its \<^verbatim>\<open>Register\<close>, as the stub
  providers of \<^verbatim>\<open>provider_test.go\<close> record theirs. It provides \<^verbatim>\<open>"a"\<close> and
  \<^verbatim>\<open>"b"\<close>; its first call binds \<^verbatim>\<open>"a"\<close> as a singleton, every later call binds
  \<^verbatim>\<open>"b"\<close>:
  \<^verbatim>\<open>func (p *P) Register(app) { p.calls++; if p.calls == 1 { app.Singleton("a", fa) } else { app.Singleton("b", fb) } }\<close>.
  The factories return the pointers 0 and 1.
\<close>

definition countingEnv :: "nat env" where
  "countingEnv =
     quietEnv\<lparr>provRegister :=
                (\<lambda>p w. if user w = 0
                        then Singleton (Suc 0) quietEnv ''a'' (UserFactory 0) (w\<lparr>user := Suc (user w)\<rparr>)
                        else Singleton (Suc 0) quietEnv ''b'' (UserFactory 1) (w\<lparr>user := Suc (user w)\<rparr>)),
              provProvides := (\<lambda>p. [''a'', ''b'']),
              provIsDeferred := (\<lambda>p. True)\<rparr>"

text \<open>
  Four providers. Provider 2 is deferred, provides \<^verbatim>\<open>"svc"\<close>, binds it as a singleton
  in its \<^verbatim>\<open>Register\<close> and has the \<^verbatim>\<open>Boot\<close> of \<^verbatim>\<open>BaseProvider\<close>. The others are
  eager and their \<^verbatim>\<open>Boot\<close> appends the provider to a log; the one of provider 1
  first resolves \<^verbatim>\<open>"svc"\<close>. \<open>svcEnv\<close> is the environment that this nested resolution
  runs in: it reaches provider 2 only.
\<close>

definition svcEnv :: "nat list env" where
  "svcEnv =
     quietEnv\<lparr>provRegister :=
                (\<lambda>p w. if p = 2 then Singleton (Suc 0) quietEnv ''svc'' (UserFactory 0) w
                        else Return () w),
              provProvides := (\<lambda>p. if p = 2 then [''svc''] else []),
              provIsDeferred := (\<lambda>p. p = 2)\<rparr>"

definition bootEnv :: "nat list env" where
  "bootEnv =
     svcEnv\<lparr>provBoot :=
       (\<lambda>p w. if p = 2 then Return () w
               else if p = 1 then
                 andThen (Make (Suc (Suc 0)) svcEnv ''svc'' w)
                   (\<lambda>_ w'. Return () (w'\<lparr>user := user w' @ [1]\<rparr>))
               else Return () (w\<lparr>user := user w @ [p]\<rparr>))\<rparr>"

text \<open>
  The heap after providers 0, 1 and 2 have been registered on a new registry over a
  flushed container, and the heap after \<^verbatim>\<open>Boot\<close>.
\<close>

definition threeRegistered :: "nat list world" where
  "threeRegistered =
     \<lparr>app = flushedContainer
        \<lparr>bindings := Some [''svc'' \<mapsto> \<lparr>factory = DeferredFn 2 ''svc'', singleton = False\<rparr>]\<rparr>,
      reg = \<lparr>eager = [0, 1], deferred = [''svc'' \<mapsto> 2], booted = False,
             registered = (\<lambda>_. False)(0 := True, 1 := True, 2 := True)\<rparr>,
      user = []\<rparr>"

definition threeBooted :: "nat list world" where
  "threeBooted =
     \<lparr>app = flushedContainer
        \<lparr>bindings := Some [''svc'' \<mapsto> \<lparr>factory = UserFactory 0, singleton = True\<rparr>],
         instances := Some [''svc'' \<mapsto> VPtr 0]\<rparr>,
      reg = \<lparr>eager = [0, 1], deferred = Map.empty, booted = True,
             registered = (\<lambda>_. False)(0 := True, 1 := True, 2 := True)\<rparr>,
      user = [0, 1]\<rparr>"

text \<open>
  Rebound callbacks that record their calls in the closures' own state, and the heap
  after \<^verbatim>\<open>c.Alias("database", "db")\<close>, \<^verbatim>\<open>c.Singleton("database", f7)\<close>,
  \<^verbatim>\<open>c.Make("database")\<close>, \<^verbatim>\<open>c.Rebinding("db", cb0)\<close> and
  \<^verbatim>\<open>c.Rebinding("database", cb1)\<close> on a container whose seven tables are made, as
  \<^verbatim>\<open>New\<close> makes them before it registers the container itself.
\<close>

definition recEnv :: "(nat \<times> val) list env" where
  "recEnv = quietEnv\<lparr>reboundFn := (\<lambda>cb v w. Return () (w\<lparr>user := user w @ [(cb, v)]\<rparr>))\<rparr>"

definition madeWorld :: "'u \<Rightarrow> 'u world" where
  "madeWorld u = \<lparr>app = madeContainer, reg = NewProviderRegistry, user = u\<rparr>"

definition dbHeap :: "(nat \<times> val) list world" where
  "dbHeap =
     (madeWorld [])\<lparr>app := madeContainer
        \<lparr>aliases := Some [''db'' \<mapsto> ''database''],
         bindings := Some [''database'' \<mapsto> \<lparr>factory = UserFactory 7, singleton = True\<rparr>],
         instances := Some [''database'' \<mapsto> VPtr 7],
         reboundCallbacks := Some [''db'' \<mapsto> [0], ''database'' \<mapsto> [1]]\<rparr>\<rparr>"

section \<open>Outcomes and frames\<close>

lemma andThen_Return [simp]: "andThen (Return a s) k = k a s"
  by (simp add: andThen_def)

lemma andThen_Panic [simp]: "andThen (Panic e s) k = Panic e s"
  by (simp add: andThen_def)

lemma andThen_Halt [simp]: "andThen (Halt h s) k = Halt h s"
  by (simp add: andThen_def)

lemma andThen_Diverge [simp]: "andThen Diverge k = Diverge"
  by (simp add: andThen_def)

lemma andThen_Return_iff:
  "andThen m k = Return b t \<longleftrightarrow> (\<exists>a s. m = Return a s \<and> k a s = Return b t)"
  by (cases m) simp_all

lemma andThen_assoc: "andThen (andThen m k) h = andThen m (\<lambda>a s. andThen (k a s) h)"
  by (cases m) simp_all

lemma deferring_Return [simp]: "deferring d (Return a s) = andThen (d s) (\<lambda>_ s'. Return a s')"
  by (simp add: deferring_def)

lemma deferring_Panic [simp]: "deferring d (Panic e s) = andThen (d s) (\<lambda>_ s'. Panic e s')"
  by (simp add: deferring_def)

lemma deferring_Halt [simp]: "deferring d (Halt h s) = Halt h s"
  by (simp add: deferring_def)

lemma deferring_Diverge [simp]: "deferring d Diverge = Diverge"
  by (simp add: deferring_def)

lemma keeps_Return [simp]: "keeps g s (Return a s') = (g s' = g s)"
  by (simp add: keeps_def)

lemma keeps_Panic [simp]: "keeps g s (Panic e s') = (g s' = g s)"
  by (simp add: keeps_def)

lemma keeps_Halt [simp]: "keeps g s (Halt h s') = (g s' = g s)"
  by (simp add: keeps_def)

lemma keeps_Diverge [simp]: "keeps g s Diverge"
  by (simp add: keeps_def)

lemma keeps_andThen:
  assumes "keeps g s m" and "\<And>a s'. g s' = g s \<Longrightarrow> keeps g s' (k a s')"
  shows "keeps g s (andThen m k)"
proof (cases m)
  case (Return a s')
  with assms(1) have eq: "g s' = g s" by simp
  from assms(2) [OF eq, of a] eq Return show ?thesis
    by (cases "k a s'") simp_all
next
  case (Panic e s')
  with assms(1) show ?thesis by simp
next
  case (Halt h s')
  with assms(1) show ?thesis by simp
next
  case Diverge
  then show ?thesis by simp
qed

lemma keeps_deferring:
  assumes "keeps g s m" and "\<And>s'. g s' = g s \<Longrightarrow> keeps g s' (d s')"
  shows "keeps g s (deferring d m)"
proof (cases m)
  case (Return a s')
  with assms(1) have eq: "g s' = g s" by simp
  from assms(2) [OF eq] eq Return show ?thesis
    by (cases "d s'") simp_all
next
  case (Panic e s')
  with assms(1) have eq: "g s' = g s" by simp
  from assms(2) [OF eq] eq Panic show ?thesis
    by (cases "d s'") simp_all
next
  case (Halt h s')
  with assms(1) show ?thesis by simp
next
  case Diverge
  then show ?thesis by simp
qed

lemma keeps_from: "keeps g s' m \<Longrightarrow> g s' = g s \<Longrightarrow> keeps g s m"
  by (cases m) simp_all



lemma closures_keep_builders: "closures_keep g env \<Longrightarrow> builders_keep g env"
  by (simp add: closures_keep_def)

section \<open>The lock\<close>

lemma reading_eq:
  "reading f w =
     (if writer (mu (app w)) then Halt Deadlock w
      else Return (f ((app w)\<lparr>mu := (mu (app w))\<lparr>readers := Suc (readers (mu (app w)))\<rparr>\<rparr>)) w)"
  by (simp add: reading_def RLock_def RUnlock_def)

lemma reading_keeps: "keeps g w (reading f w)"
  by (simp add: reading_eq)

lemma Lock_keeps: "(\<And>m. g (w\<lparr>app := (app w)\<lparr>mu := m\<rparr>\<rparr>) = g w) \<Longrightarrow> keeps g w (Lock w)"
  by (simp add: Lock_def)

lemma Unlock_keeps: "(\<And>m. g (w\<lparr>app := (app w)\<lparr>mu := m\<rparr>\<rparr>) = g w) \<Longrightarrow> keeps g w (Unlock w)"
  by (simp add: Unlock_def)

lemma locked_free:
  "mu (app w) = unlocked \<Longrightarrow>
   locked body w = deferring Unlock (body (w\<lparr>app := (app w)\<lparr>mu := \<lparr>writer = True, readers = 0\<rparr>\<rparr>\<rparr>))"
  by (simp add: locked_def Lock_def unlocked_def)

lemma locked_Return:
  assumes "mu (app w) = unlocked"
    and "body (w\<lparr>app := (app w)\<lparr>mu := \<lparr>writer = True, readers = 0\<rparr>\<rparr>\<rparr>) = Return a w'"
    and "mu (app w') = \<lparr>writer = True, readers = 0\<rparr>"
  shows "locked body w = Return a (w'\<lparr>app := (app w')\<lparr>mu := unlocked\<rparr>\<rparr>)"
  using assms by (simp add: locked_free Unlock_def unlocked_def)

section \<open>Resolution: the ways of one activation\<close>

lemma make_body_held:
  "writer (mu (app w)) \<Longrightarrow> make_body mk env a w = Halt Deadlock w"
  by (simp add: make_body_def reading_eq)

lemma make_body_cached:
  "\<not> writer (mu (app w)) \<Longrightarrow> mapRead (instances (app w)) (canonical (app w) a) = Some inst \<Longrightarrow>
   make_body mk env a w = Return inst w"
  by (simp add: make_body_def reading_eq)

lemma make_body_contextual:
  "\<not> writer (mu (app w)) \<Longrightarrow> mapRead (instances (app w)) (canonical (app w) a) = None \<Longrightarrow>
   entryOf (app w) a = Some f \<Longrightarrow> f \<noteq> NilFactory \<Longrightarrow>
   make_body mk env a w = runFactory mk env (canonical (app w) a) f False w"
  by (auto simp: make_body_def reading_eq getContextual_def entryOf_def split: if_splits option.splits)

lemma make_body_bound:
  "\<not> writer (mu (app w)) \<Longrightarrow> mapRead (instances (app w)) (canonical (app w) a) = None \<Longrightarrow>
   entryOf (app w) a = None \<or> entryOf (app w) a = Some NilFactory \<Longrightarrow>
   mapRead (bindings (app w)) (canonical (app w) a) = Some b \<Longrightarrow>
   make_body mk env a w = runFactory mk env (canonical (app w) a) (factory b) (singleton b) w"
  by (auto simp: make_body_def reading_eq getContextual_def entryOf_def split: if_splits option.splits)

lemma make_body_unbound:
  "\<not> writer (mu (app w)) \<Longrightarrow> mapRead (instances (app w)) (canonical (app w) a) = None \<Longrightarrow>
   entryOf (app w) a = None \<or> entryOf (app w) a = Some NilFactory \<Longrightarrow>
   mapRead (bindings (app w)) (canonical (app w) a) = None \<Longrightarrow>
   make_body mk env a w = Panic (NoBinding a) w"
  by (auto simp: make_body_def reading_eq getContextual_def entryOf_def split: if_splits option.splits)

section \<open>Frames through resolution\<close>

lemma runAfter_keeps:
  assumes "\<forall>cb k v w. keeps g w (afterFn env cb k v w)"
  shows "keeps g w (runAfter env cbs k v w)"
proof (induction cbs arbitrary: w)
  case Nil
  show ?case by simp
next
  case (Cons c cbs)
  have "keeps g w (afterFn env c k v w)" using assms by simp
  then show ?case
    unfolding runAfter.simps
    by (rule keeps_andThen) (rule keeps_from [OF Cons.IH], simp)
qed

lemma runRebound_keeps:
  assumes "\<forall>cb v w. keeps g w (reboundFn env cb v w)"
  shows "keeps g w (runRebound env cbs v w)"
proof (induction cbs arbitrary: w)
  case Nil
  show ?case by simp
next
  case (Cons c cbs)
  have "keeps g w (reboundFn env c v w)" using assms by simp
  then show ?case
    unfolding runRebound.simps
    by (rule keeps_andThen) (rule keeps_from [OF Cons.IH], simp)
qed

lemma runExtenders_keeps:
  assumes "\<forall>e v w. keeps g w (extenderFn env e v w)"
  shows "keeps g w (runExtenders env es v w)"
proof (induction es arbitrary: v w)
  case Nil
  show ?case by simp
next
  case (Cons e es)
  have "keeps g w (extenderFn env e v w)" using assms by simp
  then show ?case
    unfolding runExtenders.simps
    by (rule keeps_andThen) (rule keeps_from [OF Cons.IH], simp)
qed

lemma fireAfterResolving_keeps:
  assumes "\<forall>cb k v w. keeps g w (afterFn env cb k v w)"
  shows "keeps g w (fireAfterResolving env k v w)"
  unfolding fireAfterResolving_def
  by (rule keeps_andThen [OF reading_keeps]) (rule keeps_from [OF runAfter_keeps [OF assms]], simp)

lemma fireRebound_keeps:
  assumes "\<forall>cb v w. keeps g w (reboundFn env cb v w)"
  shows "keeps g w (fireRebound env a v w)"
  unfolding fireRebound_def
  by (rule keeps_andThen [OF reading_keeps]) (rule keeps_from [OF runRebound_keeps [OF assms]], simp)

lemma popStack_keeps:
  "(\<And>s. g (w\<lparr>app := (app w)\<lparr>buildStack := s\<rparr>\<rparr>) = g w) \<Longrightarrow> keeps g w (popStack w)"
  by (simp add: popStack_def)

lemma cacheInstance_keeps:
  assumes "resolution_blind g"
  shows "keeps g w (cacheInstance k v w)"
proof -
  have mu: "\<And>w m. g (w\<lparr>app := (app w)\<lparr>mu := m\<rparr>\<rparr>) = g w"
    and ins: "\<And>w i. g (w\<lparr>app := (app w)\<lparr>instances := i\<rparr>\<rparr>) = g w"
    using assms by (simp_all add: resolution_blind_def)
  have "keeps g w (Lock w)" by (rule Lock_keeps) (rule mu)
  then show ?thesis
    unfolding cacheInstance_def
  proof (rule keeps_andThen, goal_cases)
    case (1 a s')
    let ?s = "s'\<lparr>app := (app s')\<lparr>instances := mapAssign (instances (app s')) k v\<rparr>\<rparr>"
    have "keeps g ?s (Unlock ?s)" by (rule Unlock_keeps) (rule mu)
    then have "keeps g s' (Unlock ?s)" by (rule keeps_from) (rule ins)
    then show ?case by simp
  qed
qed

lemma callFactory_keeps:
  assumes blind: "resolution_blind g" and frame: "builders_keep g env"
    and mk: "\<And>a w. keeps g w (mk a w)"
  shows "keeps g w (callFactory mk env f w)"
proof (cases f)
  case NilFactory
  then show ?thesis by (simp add: callFactory_def)
next
  case (UserFactory i)
  then show ?thesis using frame by (simp add: callFactory_def builders_keep_def)
next
  case (GiveValueFn v)
  then show ?thesis by (simp add: callFactory_def)
next
  case (DeferredFn p a)
  have dfr: "\<And>w d. g (w\<lparr>reg := (reg w)\<lparr>deferred := d\<rparr>\<rparr>) = g w"
    using blind by (simp add: resolution_blind_def)
  have r: "\<And>w. keeps g w (provRegister env p w)" and b: "\<And>w. keeps g w (provBoot env p w)"
    using frame by (simp_all add: builders_keep_def)
  have trig: "keeps g w
     (if \<not> registered (reg w) p \<or> deferred (reg w) a \<noteq> None then
        andThen (provRegister env p w)
          (\<lambda>_ w1.
             let w2 = w1\<lparr>reg := (reg w1)\<lparr>deferred := (deferred (reg w1))(a := None)\<rparr>\<rparr>
             in if booted (reg w2) then provBoot env p w2 else Return () w2)
      else Return () w)"
  proof (cases "\<not> registered (reg w) p \<or> deferred (reg w) a \<noteq> None")
    case True
    have "keeps g w (andThen (provRegister env p w)
          (\<lambda>_ w1.
             let w2 = w1\<lparr>reg := (reg w1)\<lparr>deferred := (deferred (reg w1))(a := None)\<rparr>\<rparr>
             in if booted (reg w2) then provBoot env p w2 else Return () w2))"
    proof (rule keeps_andThen [OF r], goal_cases)
      case (1 x s')
      let ?s = "s'\<lparr>reg := (reg s')\<lparr>deferred := (deferred (reg s'))(a := None)\<rparr>\<rparr>"
      have "keeps g ?s (if booted (reg ?s) then provBoot env p ?s else Return () ?s)"
        using b [of ?s] by simp
      then have "keeps g s' (if booted (reg ?s) then provBoot env p ?s else Return () ?s)"
        by (rule keeps_from) (rule dfr)
      then show ?case by (simp add: Let_def)
    qed
    with True show ?thesis by simp
  next
    case False
    then show ?thesis by simp
  qed
  have "keeps g w (andThen
     (if \<not> registered (reg w) p \<or> deferred (reg w) a \<noteq> None then
        andThen (provRegister env p w)
          (\<lambda>_ w1.
             let w2 = w1\<lparr>reg := (reg w1)\<lparr>deferred := (deferred (reg w1))(a := None)\<rparr>\<rparr>
             in if booted (reg w2) then provBoot env p w2 else Return () w2)
      else Return () w) (\<lambda>_ w3. mk a w3))"
    by (rule keeps_andThen [OF trig]) (rule mk)
  with DeferredFn show ?thesis by (simp add: callFactory_def)
qed

lemma runFactory_keeps:
  assumes blind: "resolution_blind g" and frame: "builders_keep g env"
    and mk: "\<And>a w. keeps g w (mk a w)"
  shows "keeps g w (runFactory mk env k f sing w)"
proof -
  have stk: "\<And>w s. g (w\<lparr>app := (app w)\<lparr>buildStack := s\<rparr>\<rparr>) = g w"
    using blind by (simp add: resolution_blind_def)
  have ext: "\<forall>e v w. keeps g w (extenderFn env e v w)"
    and aft: "\<forall>cb k v w. keeps g w (afterFn env cb k v w)"
    using frame by (simp_all add: builders_keep_def)
  let ?w0 = "w\<lparr>app := (app w)\<lparr>buildStack := buildStack (app w) @ [k]\<rparr>\<rparr>"
  have "keeps g ?w0 (callFactory mk env f ?w0)" by (rule callFactory_keeps [OF blind frame mk])
  then have "keeps g ?w0 (runFactory mk env k f sing w)"
    unfolding runFactory_def
  proof (rule keeps_andThen, goal_cases)
    case (1 inst w1)
    have "keeps g w1 (popStack w1)" by (rule popStack_keeps) (rule stk)
    then show ?case
    proof (rule keeps_andThen, goal_cases)
      case (1 u w2)
      show ?case
      proof (rule keeps_andThen [OF reading_keeps], goal_cases)
        case (1 exts w3)
        have "keeps g w3 (if exts \<noteq> [] then applyExtenders env k inst w3 else Return inst w3)"
          using runExtenders_keeps [OF ext] by (simp add: applyExtenders_def)
        then show ?case
        proof (rule keeps_andThen, goal_cases)
          case (1 inst' w4)
          have "keeps g w4 (if sing then cacheInstance k inst' w4 else Return () w4)"
            using cacheInstance_keeps [OF blind] by simp
          then show ?case
          proof (rule keeps_andThen, goal_cases)
            case (1 u' w5)
            show ?case
              by (rule keeps_andThen [OF fireAfterResolving_keeps [OF aft]]) simp
          qed
        qed
      qed
    qed
  qed
  then show ?thesis by (rule keeps_from) (rule stk)
qed

lemma make_body_keeps:
  assumes blind: "resolution_blind g" and frame: "builders_keep g env"
    and mk: "\<And>a w. keeps g w (mk a w)"
  shows "keeps g w (make_body mk env a w)"
  unfolding make_body_def Let_def
proof (rule keeps_andThen [OF reading_keeps], goal_cases)
  case (1 hit w1)
  show ?case
  proof (cases hit)
    case (Some inst)
    then show ?thesis by simp
  next
    case None
    have "keeps g w1 (if buildStack (app w1) \<noteq> [] then
                    getContextual (last (buildStack (app w1))) a w1
                  else Return NilFactory w1)"
      by (simp add: getContextual_def reading_keeps)
    then have "keeps g w1
       (andThen (if buildStack (app w1) \<noteq> [] then
                    getContextual (last (buildStack (app w1))) a w1
                  else Return NilFactory w1)
          (\<lambda>f w2.
              if f \<noteq> NilFactory then runFactory mk env (canonical (app w) a) f False w2
              else
                andThen (reading (\<lambda>c. mapRead (bindings c) (canonical (app w) a)) w2)
                  (\<lambda>b w3.
                     case b of
                       None \<Rightarrow> Panic (NoBinding a) w3
                     | Some b \<Rightarrow> runFactory mk env (canonical (app w) a) (factory b) (singleton b) w3)))"
    proof (rule keeps_andThen, goal_cases)
      case (1 f w2)
      show ?case
      proof (cases "f \<noteq> NilFactory")
        case True
        then show ?thesis using runFactory_keeps [OF blind frame mk] by simp
      next
        case False
        have "keeps g w2 (andThen (reading (\<lambda>c. mapRead (bindings c) (canonical (app w) a)) w2)
                  (\<lambda>b w3.
                     case b of
                       None \<Rightarrow> Panic (NoBinding a) w3
                     | Some b \<Rightarrow> runFactory mk env (canonical (app w) a) (factory b) (singleton b) w3))"
        proof (rule keeps_andThen [OF reading_keeps], goal_cases)
          case (1 b w3)
          show ?case using runFactory_keeps [OF blind frame mk]
            by (cases b) simp_all
        qed
        with False show ?thesis by simp
      qed
    qed
    with None show ?thesis by simp
  qed
qed

lemma make_keeps:
  assumes "resolution_blind g" and "builders_keep g env"
  shows "keeps g w (make n env a w)"
proof (induction n arbitrary: a w)
  case 0
  show ?case by simp
next
  case (Suc n)
  show ?case
    unfolding make.simps by (rule make_body_keeps [OF assms]) (rule Suc.IH)
qed

section \<open>Evaluation of concrete runs\<close>

lemmas eval_defs = Make_def make_body_def Let_def canonical_def getContextual_def reading_eq
  runFactory_def callFactory_def popStack_def slice_at_def fireAfterResolving_def applyExtenders_def
  fireRebound_def bind_def Bind_def Singleton_def locked_def Lock_def Unlock_def cacheInstance_def
  mapRead_def mapDelete_def mapAssign_def flushedWorld_def flushedContainer_def zeroWorld_def
  zeroContainer_def unlocked_def quietEnv_def NewProviderRegistry_def

lemma Flush_zeroWorld: "Flush (zeroWorld u) = Return () (flushedWorld u)"
  by (simp add: Flush_def eval_defs)

section \<open>The build stack on a failing build\<close>

text \<open>
  Claim C2 at a failing input. On a flushed container the build stack is empty.
  \<^verbatim>\<open>c.Bind("mailer", f)\<close>, where \<open>f\<close> resolves the unregistered \<^verbatim>\<open>"logger"\<close>, then
  \<^verbatim>\<open>c.Make("mailer")\<close>: the panic of the nested \<^verbatim>\<open>make\<close> passes through
  \<^verbatim>\<open>runFactory\<close>, whose pop is an ordinary statement after the factory call, and
  \<^verbatim>\<open>"mailer"\<close> is still on the build stack when the panic reaches the caller.
\<close>

theorem failed_build_keeps_stack_entry:
  "Flush (zeroWorld ()) = Return () (flushedWorld ())
   \<and> buildStack (app (flushedWorld ())) = []
   \<and> (case andThen (Bind (Suc 0) mailerEnv ''mailer'' (UserFactory 0) (flushedWorld ()))
              (\<lambda>_. Make (Suc 0) mailerEnv ''mailer'') of
         Panic e w \<Rightarrow> e = NoBinding ''logger'' \<and> buildStack (app w) = [''mailer'']
       | _ \<Rightarrow> False)"
  by (simp add: Flush_zeroWorld) (simp add: eval_defs mailerEnv_def)

section \<open>Go maps\<close>

lemma mapRead_made: "mapRead m k = Some v \<Longrightarrow> m \<noteq> None"
  by (cases m) (simp_all add: mapRead_def)

lemma mapRead_mapAssign:
  "m \<noteq> None \<Longrightarrow> mapRead (mapAssign m k v) k' = (if k' = k then Some v else mapRead m k')"
  by (cases m) (simp_all add: mapRead_def mapAssign_def)


lemma mapAssign_made [simp]: "(mapAssign m k v = None) = (m = None)"
  by (cases m) (simp_all add: mapAssign_def)

lemma mapDelete_made [simp]: "(mapDelete m k = None) = (m = None)"
  by (cases m) (simp_all add: mapDelete_def)

lemma canonical_update [simp]:
  "canonical (c\<lparr>mu := m\<rparr>) = canonical c"
  "canonical (c\<lparr>bindings := b\<rparr>) = canonical c"
  "canonical (c\<lparr>instances := i\<rparr>) = canonical c"
  "canonical (c\<lparr>extenders := e\<rparr>) = canonical c"
  "canonical (c\<lparr>tags := t\<rparr>) = canonical c"
  "canonical (c\<lparr>contextual := x\<rparr>) = canonical c"
  "canonical (c\<lparr>reboundCallbacks := r\<rparr>) = canonical c"
  "canonical (c\<lparr>afterResolving := f\<rparr>) = canonical c"
  "canonical (c\<lparr>buildStack := s\<rparr>) = canonical c"
  by (simp_all add: canonical_def fun_eq_iff)

lemma unlocked_again:
  "mu (app w) = unlocked \<Longrightarrow> w\<lparr>app := (app w)\<lparr>mu := \<lparr>writer = False, readers = 0\<rparr>\<rparr>\<rparr> = w"
  by (simp add: unlocked_def)

section \<open>Extenders\<close>

lemma runExtenders_pure:
  assumes "\<forall>e v w. extenderFn env e v w = Return (dec e v) w"
  shows "runExtenders env es v w = Return (chain dec es v) w"
  using assms by (induction es arbitrary: v) (simp_all add: chain_def)

lemma deferring_Unlock_Return:
  assumes "deferring Unlock m = Return x w'"
  shows "\<exists>s. m = Return x s \<and> writer (mu (app s)) \<and> w' = s\<lparr>app := (app s)\<lparr>mu := (mu (app s))\<lparr>writer := False\<rparr>\<rparr>\<rparr>"
  using assms by (cases m) (auto simp: Unlock_def andThen_Return_iff split: if_splits)

lemma Lock_Return:
  "Lock w = Return x w' \<longleftrightarrow>
     (\<not> writer (mu (app w)) \<and> readers (mu (app w)) = 0
      \<and> w' = w\<lparr>app := (app w)\<lparr>mu := (mu (app w))\<lparr>writer := True\<rparr>\<rparr>\<rparr>)"
  by (auto simp: Lock_def)


lemma Extend_cached:
  assumes pure: "\<forall>e v w. extenderFn env e v w = Return (dec e v) w"
    and key: "k = canonical (app w) a"
    and es: "es = slice_at (extenders (app w)) k"
    and free: "mu (app w) = unlocked" and exm: "extenders (app w) \<noteq> None"
    and hit: "mapRead (instances (app w)) k = Some inst"
  shows "Extend env a d w = deferring Unlock (andThen (fireRebound env a (chain dec (es @ [d]) inst) (w\<lparr>app := (app w)\<lparr>extenders := mapAssign (extenders (app w)) k (es @ [d]),
                                   instances := mapAssign (instances (app w)) k (chain dec (es @ [d]) inst)\<rparr>\<rparr>)) (\<lambda>_ w5. Lock w5))"
proof -
  from hit have inm: "instances (app w) \<noteq> None" by (auto dest: mapRead_made)
  from exm have sl: "slice_at (mapAssign (extenders (app w)) k (es @ [d])) k = es @ [d]"
    by (simp add: slice_at_def mapRead_mapAssign)
  let ?wl = "w\<lparr>app := (app w)\<lparr>mu := \<lparr>writer = True, readers = 0\<rparr>\<rparr>\<rparr>"
  let ?w2 = "?wl\<lparr>app := (app ?wl)\<lparr>extenders := mapAssign (extenders (app ?wl)) k (es @ [d])\<rparr>\<rparr>"
  have c: "canonical (app ?wl) a = k" using key by simp
  have e: "slice_at (extenders (app ?wl)) k = es" using es by simp
  have a1: "applyExtenders env k inst ?w2 = Return (chain dec (es @ [d]) inst) ?w2"
    using sl by (simp add: applyExtenders_def runExtenders_pure [OF pure])
  have h2: "mapRead (instances (app ?w2)) k = Some inst" using hit by simp
  have x2: "extenders (app ?wl) \<noteq> None" using exm by simp
  have i2: "instances (app ?w2) \<noteq> None" using inm by simp
  show ?thesis
    unfolding Extend_def locked_free [OF free] Let_def c e
    apply (simp only: x2 if_False h2 option.case a1 andThen_Return i2)
    apply (simp add: Unlock_def free [unfolded unlocked_def, symmetric])
    done
qed

text \<open>
  Claim C5, as amended. With decorators that are pure functions of the value, at the
  canonical key \<^verbatim>\<open>k\<close> of the abstract and with \<^verbatim>\<open>es\<close> the extenders registered for
  \<^verbatim>\<open>k\<close> so far. \<^verbatim>\<open>Extend\<close> blocks when the lock is held and panics when the table of
  extenders is nil. Otherwise, on a key without a cached instance it only appends the
  decorator. On a key with a cached instance it applies the whole chain, the earlier
  extenders and then the new one, to the cached instance, stores the result in its place,
  releases the lock and fires the rebound callbacks registered under the name as passed
  with that result; when the callbacks leave the key's alias and cached instance alone,
  the next \<^verbatim>\<open>Make\<close> returns the stored value from the cache, without running a
  factory. A value freshly built by \<^verbatim>\<open>runFactory\<close> gets each extender of the key
  once, in registration order.
\<close>

theorem Extend_reapplies_chain:
  assumes pure: "\<forall>e v w. extenderFn env e v w = Return (dec e v) w"
    and frame: "\<forall>cb v w. keeps (\<lambda>w. (canonical (app w) a, mapRead (instances (app w)) k)) w (reboundFn env cb v w)"
    and key: "k = canonical (app w) a"
    and es: "es = slice_at (extenders (app w)) k"
  shows "(mu (app w) \<noteq> unlocked \<longrightarrow> Extend env a d w = Halt Deadlock w)
       \<and> (mu (app w) = unlocked \<and> extenders (app w) = None \<longrightarrow> Extend env a d w = Panic NilMapWrite w)
       \<and> (mu (app w) = unlocked \<and> extenders (app w) \<noteq> None \<and> mapRead (instances (app w)) k = None \<longrightarrow>
            Extend env a d w
              = Return () (w\<lparr>app := (app w)\<lparr>extenders := mapAssign (extenders (app w)) k (es @ [d])\<rparr>\<rparr>))
       \<and> (mu (app w) = unlocked \<and> extenders (app w) \<noteq> None \<and> mapRead (instances (app w)) k = Some inst \<longrightarrow>
            Extend env a d w
              = deferring Unlock
                  (andThen
                     (fireRebound env a (chain dec (es @ [d]) inst)
                        (w\<lparr>app := (app w)\<lparr>extenders := mapAssign (extenders (app w)) k (es @ [d]),
                                         instances := mapAssign (instances (app w)) k (chain dec (es @ [d]) inst)\<rparr>\<rparr>))
                     (\<lambda>_ w5. Lock w5))
            \<and> (\<forall>w'. Extend env a d w = Return () w' \<longrightarrow>
                  Make (Suc n) env' a w' = Return (chain dec (es @ [d]) inst) w'))
       \<and> (callFactory mk env f (w\<lparr>app := (app w)\<lparr>buildStack := buildStack (app w) @ [k]\<rparr>\<rparr>) = Return x w1
            \<and> buildStack (app w1) \<noteq> [] \<and> runFactory mk env k f sing w = Return y w' \<longrightarrow>
            y = chain dec (slice_at (extenders (app w1)) k) x)"
proof (intro conjI impI)
  assume "mu (app w) \<noteq> unlocked"
  then have "writer (mu (app w)) \<or> 0 < readers (mu (app w))"
    by (cases "mu (app w)") (auto simp: unlocked_def)
  then show "Extend env a d w = Halt Deadlock w"
    by (simp add: Extend_def locked_def Lock_def)
next
  assume "mu (app w) = unlocked \<and> extenders (app w) = None"
  then have free: "mu (app w) = unlocked" and exn: "extenders (app w) = None" by simp_all
  show "Extend env a d w = Panic NilMapWrite w"
    unfolding Extend_def locked_free [OF free] Let_def
    using exn by (simp add: Unlock_def free [unfolded unlocked_def, symmetric])
next
  assume h: "mu (app w) = unlocked \<and> extenders (app w) \<noteq> None \<and> mapRead (instances (app w)) k = None"
  then have free: "mu (app w) = unlocked" and exm: "extenders (app w) \<noteq> None"
    and miss: "mapRead (instances (app w)) k = None" by simp_all
  show "Extend env a d w
     = Return () (w\<lparr>app := (app w)\<lparr>extenders := mapAssign (extenders (app w)) k (es @ [d])\<rparr>\<rparr>)"
    unfolding Extend_def locked_free [OF free] Let_def
    by (simp add: exm miss key [symmetric] es [symmetric] Unlock_def free [unfolded unlocked_def, symmetric])
next
  assume h: "mu (app w) = unlocked \<and> extenders (app w) \<noteq> None \<and> mapRead (instances (app w)) k = Some inst"
  let ?X = "chain dec (es @ [d]) inst"
  let ?w2 = "w\<lparr>app := (app w)\<lparr>extenders := mapAssign (extenders (app w)) k (es @ [d]),
                                   instances := mapAssign (instances (app w)) k ?X\<rparr>\<rparr>"
  from h have inm: "instances (app w) \<noteq> None" by (auto dest: mapRead_made)
  from h have free: "mu (app w) = unlocked" and exm: "extenders (app w) \<noteq> None"
    and hit: "mapRead (instances (app w)) k = Some inst" by simp_all
  show eq: "Extend env a d w = deferring Unlock (andThen (fireRebound env a ?X ?w2) (\<lambda>_ w5. Lock w5))"
    by (rule Extend_cached [OF pure key es free exm hit])
  show "\<forall>w'. Extend env a d w = Return () w' \<longrightarrow> Make (Suc n) env' a w' = Return ?X w'"
  proof (intro allI impI)
    fix w' assume r: "Extend env a d w = Return () w'"
    from r have "deferring Unlock (andThen (fireRebound env a ?X ?w2) (\<lambda>_ w5. Lock w5)) = Return () w'"
      by (simp only: eq)
    from deferring_Unlock_Return [OF this] obtain s where
      s: "andThen (fireRebound env a ?X ?w2) (\<lambda>_ w5. Lock w5) = Return () s"
      and w': "w' = s\<lparr>app := (app s)\<lparr>mu := (mu (app s))\<lparr>writer := False\<rparr>\<rparr>\<rparr>"
      by blast
    from s [unfolded andThen_Return_iff] obtain u w5 where
      f: "fireRebound env a ?X ?w2 = Return u w5" and l: "Lock w5 = Return () s"
      by blast
    have "keeps (\<lambda>w. (canonical (app w) a, mapRead (instances (app w)) k)) ?w2 (fireRebound env a ?X ?w2)"
      by (rule fireRebound_keeps [OF frame])
    with f have "canonical (app w5) a = canonical (app ?w2) a
        \<and> mapRead (instances (app w5)) k = mapRead (instances (app ?w2)) k" by simp
    then have k5: "canonical (app w5) a = k \<and> mapRead (instances (app w5)) k = Some ?X"
      using key inm by (simp add: mapRead_mapAssign)
    from l have s5: "s = w5\<lparr>app := (app w5)\<lparr>mu := (mu (app w5))\<lparr>writer := True\<rparr>\<rparr>\<rparr>"
      by (simp add: Lock_Return)
    have "canonical (app w') a = k \<and> mapRead (instances (app w')) k = Some ?X \<and> \<not> writer (mu (app w'))"
      using k5 by (simp add: w' s5)
    then have "\<not> writer (mu (app w'))" and "mapRead (instances (app w')) (canonical (app w') a) = Some ?X"
      by simp_all
    then show "Make (Suc n) env' a w' = Return ?X w'"
      unfolding Make_def make.simps by (rule make_body_cached)
  qed
next
  assume h: "callFactory mk env f (w\<lparr>app := (app w)\<lparr>buildStack := buildStack (app w) @ [k]\<rparr>\<rparr>) = Return x w1
            \<and> buildStack (app w1) \<noteq> [] \<and> runFactory mk env k f sing w = Return y w'"
  let ?w2 = "w1\<lparr>app := (app w1)\<lparr>buildStack := butlast (buildStack (app w1))\<rparr>\<rparr>"
  let ?y = "chain dec (slice_at (extenders (app w1)) k) x"
  have pop: "popStack w1 = Return () ?w2" using h by (simp add: popStack_def)
  from h have run: "runFactory mk env k f sing w = Return y w'" by simp
  show "y = ?y"
  proof (cases "writer (mu (app w1))")
    case True
    then have "reading (\<lambda>c. slice_at (extenders c) k) ?w2 = Halt Deadlock ?w2"
      by (simp add: reading_eq)
    with run h pop show ?thesis by (simp add: runFactory_def)
  next
    case False
    then have rd: "reading (\<lambda>c. slice_at (extenders c) k) ?w2
        = Return (slice_at (extenders (app w1)) k) ?w2"
      by (simp add: reading_eq)
    have ext: "(if slice_at (extenders (app w1)) k \<noteq> [] then applyExtenders env k x ?w2 else Return x ?w2)
        = Return ?y ?w2"
      by (simp add: applyExtenders_def runExtenders_pure [OF pure] chain_def)
    from run show ?thesis
      unfolding runFactory_def using h pop rd ext
      by (auto simp: andThen_Return_iff)
  qed
qed

lemma decorEnv_pure: "\<forall>e v w. extenderFn decorEnv e v w = Return (decorate e v) w"
  by (simp add: decorEnv_def quietEnv_def)

lemma decorEnv_rebound: "\<forall>cb v w. keeps g w (reboundFn decorEnv cb v w)"
  by (simp add: decorEnv_def quietEnv_def)

theorem Extend_reapplies_chain_witness:
  "Extend decorEnv ''n'' 1 decorOnce = Return () decorTwice
   \<and> Make (Suc 0) decorEnv ''n'' decorTwice = Return (VInt 30) decorTwice"
proof -
  have k: "''n'' = canonical (app decorOnce) ''n''"
    by (simp add: decorOnce_def eval_defs)
  have es: "[0] = slice_at (extenders (app decorOnce)) ''n''"
    by (simp add: decorOnce_def eval_defs)
  have c: "mu (app decorOnce) = unlocked \<and> extenders (app decorOnce) \<noteq> None
      \<and> mapRead (instances (app decorOnce)) ''n'' = Some (VInt 2)"
    by (simp add: decorOnce_def flushedWorld_def flushedContainer_def mapRead_def)
  have v: "chain decorate ([0] @ [1]) (VInt 2) = VInt 30"
    by (simp add: chain_def decorate_def)
  note t = Extend_reapplies_chain [OF decorEnv_pure decorEnv_rebound k es,
      where inst = "VInt 2" and d = 1 and n = 0 and env' = decorEnv, unfolded v]
  from t c have e: "Extend decorEnv ''n'' 1 decorOnce
     = deferring Unlock
         (andThen
            (fireRebound decorEnv ''n'' (VInt 30)
               (decorOnce\<lparr>app := (app decorOnce)
                   \<lparr>extenders := mapAssign (extenders (app decorOnce)) ''n'' ([0] @ [1]),
                    instances := mapAssign (instances (app decorOnce)) ''n'' (VInt 30)\<rparr>\<rparr>))
            (\<lambda>_ w5. Lock w5))"
    by blast
  have r: "Extend decorEnv ''n'' 1 decorOnce = Return () decorTwice"
    unfolding e
    by (simp add: decorOnce_def decorTwice_def decorEnv_def eval_defs fun_upd_twist)
  from t c r have "Make (Suc 0) decorEnv ''n'' decorTwice = Return (VInt 30) decorTwice"
    by blast
  with r show ?thesis by simp
qed

text \<open>
  Claim C5 as stated fails when the cached instance was already decorated: the earlier
  extenders are applied to it a second time. With the factory returning 1, extender 0
  adding one and extender 1 multiplying by ten, the cached 2 becomes 30 on
  \<^verbatim>\<open>Extend("n", e1)\<close>, where the new decorator alone makes 20 of it, and so does the
  chain applied once to the factory's value.
\<close>

theorem Extend_decorates_twice_counterexample:
  "andThen (Singleton (Suc 0) decorEnv ''n'' (UserFactory 0) (flushedWorld ()))
     (\<lambda>_ w. andThen (Extend decorEnv ''n'' 0 w)
        (\<lambda>_ w. andThen (Make (Suc 0) decorEnv ''n'' w) (\<lambda>v w. Return v w)))
     = Return (VInt 2) decorOnce
   \<and> Extend decorEnv ''n'' 1 decorOnce = Return () decorTwice
   \<and> Make (Suc 0) decorEnv ''n'' decorTwice = Return (VInt 30) decorTwice
   \<and> decorate 1 (VInt 2) = VInt 20
   \<and> decorate 1 (decorate 0 (VInt 1)) = VInt 20"
  by (simp add: eval_defs Extend_def decorEnv_def decorate_def decorOnce_def decorTwice_def
      fun_upd_twist)

section \<open>Flush\<close>

lemma held_iff: "mu (app w) \<noteq> unlocked \<longleftrightarrow> writer (mu (app w)) \<or> 0 < readers (mu (app w))"
  by (cases "mu (app w)") (auto simp: unlocked_def)

lemma locked_held: "mu (app w) \<noteq> unlocked \<Longrightarrow> locked body w = Halt Deadlock w"
  by (simp add: held_iff locked_def Lock_def)

lemma Flush_free:
  assumes free: "mu (app w) = unlocked"
  shows "Flush w =
     Return () (w\<lparr>app := (app w)\<lparr>bindings := Some Map.empty, instances := Some Map.empty,
                               aliases := Some Map.empty, extenders := Some Map.empty,
                               tags := Some Map.empty, contextual := Some Map.empty\<rparr>\<rparr>)"
  unfolding Flush_def locked_free [OF free]
  by (simp add: Unlock_def free [unfolded unlocked_def, symmetric])

text \<open>
  Claim C4. \<^verbatim>\<open>Flush\<close> blocks when the lock is held. Otherwise it returns, with the
  six tables bindings, instances, aliases, extenders, tags and contextual made anew and
  empty, and nothing else changed: the table of rebound callbacks, the list of
  after-resolving observers, the build stack and the provider registry are what they
  were. The instance table is emptied as a whole, so after \<^verbatim>\<open>Flush\<close> every
  \<^verbatim>\<open>Make\<close>, the one of \<^verbatim>\<open>"container"\<close> included, panics for want of a binding.
\<close>

theorem Flush_resets:
  "(mu (app w) \<noteq> unlocked \<longrightarrow> Flush w = Halt Deadlock w)
   \<and> (mu (app w) = unlocked \<longrightarrow>
        Flush w =
          Return () (w\<lparr>app := (app w)\<lparr>bindings := Some Map.empty, instances := Some Map.empty,
                                    aliases := Some Map.empty, extenders := Some Map.empty,
                                    tags := Some Map.empty, contextual := Some Map.empty\<rparr>\<rparr>))
   \<and> (Flush w = Return () w' \<longrightarrow>
        reboundCallbacks (app w') = reboundCallbacks (app w)
        \<and> afterResolving (app w') = afterResolving (app w)
        \<and> buildStack (app w') = buildStack (app w)
        \<and> reg w' = reg w \<and> user w' = user w
        \<and> Make (Suc n) env abstract w' = Panic (NoBinding abstract) w')"
proof (intro conjI impI)
  assume "mu (app w) \<noteq> unlocked"
  then show "Flush w = Halt Deadlock w" by (simp add: Flush_def locked_held)
next
  assume "mu (app w) = unlocked"
  then show "Flush w =
          Return () (w\<lparr>app := (app w)\<lparr>bindings := Some Map.empty, instances := Some Map.empty,
                                    aliases := Some Map.empty, extenders := Some Map.empty,
                                    tags := Some Map.empty, contextual := Some Map.empty\<rparr>\<rparr>)"
    by (rule Flush_free)
next
  assume r: "Flush w = Return () w'"
  have free: "mu (app w) = unlocked"
  proof (rule ccontr)
    assume "mu (app w) \<noteq> unlocked"
    then have "Flush w = Halt Deadlock w" by (simp add: Flush_def locked_held)
    with r show False by simp
  qed
  from r have w': "w' = w\<lparr>app := (app w)\<lparr>bindings := Some Map.empty, instances := Some Map.empty,
                               aliases := Some Map.empty, extenders := Some Map.empty,
                               tags := Some Map.empty, contextual := Some Map.empty\<rparr>\<rparr>"
    by (simp add: Flush_free [OF free])
  show "reboundCallbacks (app w') = reboundCallbacks (app w)"
    and "afterResolving (app w') = afterResolving (app w)"
    and "buildStack (app w') = buildStack (app w)"
    and "reg w' = reg w" and "user w' = user w"
    by (simp_all add: w')
  have nw: "\<not> writer (mu (app w'))" using free by (simp add: w' unlocked_def)
  have c: "canonical (app w') abstract = abstract" by (simp add: w' canonical_def mapRead_def)
  have "make_body (make n env) env abstract w' = Panic (NoBinding abstract) w'"
    by (rule make_body_unbound [OF nw]) (simp_all add: c, simp_all add: w' mapRead_def entryOf_def)
  then show "Make (Suc n) env abstract w' = Panic (NoBinding abstract) w'"
    by (simp add: Make_def)
qed

text \<open>
  On the zero container: an observer registered before \<^verbatim>\<open>Flush\<close> is still
  registered after it and is called at the next resolution, and \<^verbatim>\<open>"container"\<close>
  does not resolve.
\<close>

theorem Flush_resets_witness:
  "AfterResolving 0 (zeroWorld []) = Return () observed
   \<and> Flush observed = Return () observedFlushed
   \<and> afterResolving (app observedFlushed) = [0]
   \<and> Make (Suc 0) observerEnv ''container'' observedFlushed
        = Panic (NoBinding ''container'') observedFlushed
   \<and> (case andThen (Bind (Suc 0) observerEnv ''x'' (UserFactory 7) observedFlushed)
              (\<lambda>_. Make (Suc 0) observerEnv ''x'') of
         Return v w \<Rightarrow> v = VPtr 7 \<and> user w = [(''x'', VPtr 7)]
       | _ \<Rightarrow> False)"
proof -
  have a: "AfterResolving 0 (zeroWorld []) = Return () observed"
    by (simp add: AfterResolving_def observed_def eval_defs)
  have f: "Flush observed = Return () observedFlushed"
    by (simp add: Flush_def observed_def observedFlushed_def eval_defs)
  from Flush_resets [of observed observedFlushed 0 observerEnv "''container''"] f
  have "afterResolving (app observedFlushed) = afterResolving (app observed)
      \<and> Make (Suc 0) observerEnv ''container'' observedFlushed
          = Panic (NoBinding ''container'') observedFlushed"
    by blast
  moreover have "afterResolving (app observed) = [0]" by (simp add: observed_def)
  moreover have "(case andThen (Bind (Suc 0) observerEnv ''x'' (UserFactory 7) observedFlushed)
              (\<lambda>_. Make (Suc 0) observerEnv ''x'') of
         Return v w \<Rightarrow> v = VPtr 7 \<and> user w = [(''x'', VPtr 7)]
       | _ \<Rightarrow> False)"
    by (simp add: observedFlushed_def observerEnv_def eval_defs)
  ultimately show ?thesis using a f by simp
qed

section \<open>Bindings and cached instances\<close>

lemma Instance_blocks:
  assumes free: "mu (app w) = unlocked" and made: "instances (app w) \<noteq> None"
  shows "Instance env a v w =
     Halt Deadlock
       (w\<lparr>app := (app w)\<lparr>mu := \<lparr>writer = True, readers = 0\<rparr>,
                         bindings := mapDelete (bindings (app w)) (canonical (app w) a),
                         instances := mapAssign (instances (app w)) (canonical (app w) a) v\<rparr>\<rparr>)"
  unfolding Instance_def locked_free [OF free] Let_def
  by (simp add: made fireRebound_def reading_eq)

lemma Instance_nil:
  assumes free: "mu (app w) = unlocked" and nil: "instances (app w) = None"
  shows "Instance env a v w =
     Panic NilMapWrite
       (w\<lparr>app := (app w)\<lparr>bindings := mapDelete (bindings (app w)) (canonical (app w) a)\<rparr>\<rparr>)"
  unfolding Instance_def locked_free [OF free] Let_def
  by (simp add: nil Unlock_def free [unfolded unlocked_def, symmetric])

lemma Instance_never_returns: "Instance env a v w \<noteq> Return u w'"
proof (cases "mu (app w) = unlocked")
  case False
  then have "Instance env a v w = Halt Deadlock w" by (simp add: Instance_def locked_held)
  then show ?thesis by simp
next
  case free: True
  show ?thesis
  proof (cases "instances (app w) = None")
    case True
    from Instance_nil [OF free True, of env a v] show ?thesis by simp
  next
    case False
    from Instance_blocks [OF free False, of env a v] show ?thesis by simp
  qed
qed



lemma cacheInstance_Return:
  assumes "cacheInstance k v w = Return u w'"
  shows "w' = w\<lparr>app := (app w)\<lparr>instances := mapAssign (instances (app w)) k v\<rparr>\<rparr>
         \<and> instances (app w) \<noteq> None \<and> mu (app w) = unlocked"
  using assms
  by (cases "mu (app w)")
     (auto simp: cacheInstance_def Lock_def Unlock_def unlocked_def split: if_splits)

lemma runFactory_Return:
  assumes "runFactory mk env k f sing w = Return v w'"
  shows "\<exists>x w1 w4 w5.
           callFactory mk env f (w\<lparr>app := (app w)\<lparr>buildStack := buildStack (app w) @ [k]\<rparr>\<rparr>) = Return x w1
         \<and> buildStack (app w1) \<noteq> [] \<and> \<not> writer (mu (app w1))
         \<and> (if slice_at (extenders (app w1)) k \<noteq> []
             then applyExtenders env k x (w1\<lparr>app := (app w1)\<lparr>buildStack := butlast (buildStack (app w1))\<rparr>\<rparr>)
             else Return x (w1\<lparr>app := (app w1)\<lparr>buildStack := butlast (buildStack (app w1))\<rparr>\<rparr>))
            = Return v w4
         \<and> (if sing then cacheInstance k v w4 else Return () w4) = Return () w5
         \<and> fireAfterResolving env k v w5 = Return () w'"
proof -
  from assms [unfolded runFactory_def andThen_Return_iff] obtain x w1 where
    cf: "callFactory mk env f (w\<lparr>app := (app w)\<lparr>buildStack := buildStack (app w) @ [k]\<rparr>\<rparr>) = Return x w1"
    and r1: "\<exists>u w2. popStack w1 = Return u w2 \<and>
        (\<exists>exts w3. reading (\<lambda>c. slice_at (extenders c) k) w2 = Return exts w3 \<and>
          (\<exists>inst' w4. (if exts \<noteq> [] then applyExtenders env k x w3 else Return x w3) = Return inst' w4 \<and>
            (\<exists>u' w5. (if sing then cacheInstance k inst' w4 else Return () w4) = Return u' w5 \<and>
              (\<exists>u'' w6. fireAfterResolving env k inst' w5 = Return u'' w6 \<and> Return inst' w6 = Return v w'))))"
    by blast
  from r1 obtain u w2 exts w3 inst' w4 u' w5 u'' w6 where
    pop: "popStack w1 = Return u w2"
    and rd: "reading (\<lambda>c. slice_at (extenders c) k) w2 = Return exts w3"
    and ex: "(if exts \<noteq> [] then applyExtenders env k x w3 else Return x w3) = Return inst' w4"
    and ci: "(if sing then cacheInstance k inst' w4 else Return () w4) = Return u' w5"
    and fa: "fireAfterResolving env k inst' w5 = Return u'' w6"
    and fin: "Return inst' w6 = Return v w'"
    by blast
  from pop have ne: "buildStack (app w1) \<noteq> []"
    and w2: "w2 = w1\<lparr>app := (app w1)\<lparr>buildStack := butlast (buildStack (app w1))\<rparr>\<rparr>"
    by (auto simp: popStack_def split: if_splits)
  from rd have nw: "\<not> writer (mu (app w2))" and w3: "w3 = w2"
    and exts: "exts = slice_at (extenders (app w2)) k"
    by (auto simp: reading_eq split: if_splits)
  from fin have v: "inst' = v" and w6: "w6 = w'" by simp_all
  have "(if slice_at (extenders (app w1)) k \<noteq> []
             then applyExtenders env k x (w1\<lparr>app := (app w1)\<lparr>buildStack := butlast (buildStack (app w1))\<rparr>\<rparr>)
             else Return x (w1\<lparr>app := (app w1)\<lparr>buildStack := butlast (buildStack (app w1))\<rparr>\<rparr>))
            = Return v w4"
    using ex [unfolded exts w3 w2 v] by simp
  moreover have "(if sing then cacheInstance k v w4 else Return () w4) = Return () w5"
    using ci [unfolded v] by simp
  moreover have "fireAfterResolving env k v w5 = Return () w'"
    using fa [unfolded v w6] by simp
  moreover have "\<not> writer (mu (app w1))" using nw by (simp add: w2)
  ultimately show ?thesis using cf ne by blast
qed

lemma runFactory_singleton_caches:
  assumes run: "runFactory mk env k f True w = Return v w'"
    and obs: "\<forall>cb k' v w. keeps g w (afterFn env cb k' v w)"
    and g: "\<And>x y. g x = g y \<Longrightarrow> mapRead (instances (app x)) k = mapRead (instances (app y)) k
                                \<and> writer (mu (app x)) = writer (mu (app y))"
  shows "mapRead (instances (app w')) k = Some v \<and> \<not> writer (mu (app w'))"
proof -
  from runFactory_Return [OF run] obtain w4 w5 where
    ci: "cacheInstance k v w4 = Return () w5" and fa: "fireAfterResolving env k v w5 = Return () w'"
    by auto
  from cacheInstance_Return [OF ci]
  have 5: "mapRead (instances (app w5)) k = Some v \<and> \<not> writer (mu (app w5))"
    by (simp add: mapRead_mapAssign unlocked_def)
  have "keeps g w5 (fireAfterResolving env k v w5)" by (rule fireAfterResolving_keeps [OF obs])
  with fa have "g w' = g w5" by simp
  from g [OF this] 5 show ?thesis by simp
qed


lemma quietEnv_closures: "closures_keep g quietEnv"
  by (simp add: closures_keep_def builders_keep_def quietEnv_def)





section \<open>Singletons\<close>

text \<open>
  Claim C7, as amended. For a key bound via \<^verbatim>\<open>Singleton\<close> with the user factory
  \<open>i\<close>, not yet cached, resolved where no contextual entry applies (the build stack is
  empty, or its top has no entry for the name), by user code that leaves the alias of the
  name alone and whose after-resolving observers leave the cached instance and the lock
  alone: when the first \<^verbatim>\<open>Make\<close> returns, it has called the factory on the heap with
  the key pushed, and what it returns is what the extenders of the key make of the
  factory's value; with no after-resolving observer registered, the heap it leaves is
  the one that this one run of the factory and the extenders has left, with the value
  written to the cache; that value is cached; and a second \<^verbatim>\<open>Make\<close> returns the same
  value and leaves the heap as it is, so it has called nothing.
\<close>

theorem singleton_make_twice:
  assumes key: "k = canonical (app w) a"
    and bound: "mapRead (bindings (app w)) k = Some \<lparr>factory = UserFactory i, singleton = True\<rparr>"
    and fresh: "mapRead (instances (app w)) k = None"
    and noctx: "entryOf (app w) a = None \<or> entryOf (app w) a = Some NilFactory"
    and names: "closures_keep (\<lambda>w. canonical (app w) a) env"
    and observers: "\<forall>cb k' v w. keeps (\<lambda>w. (mapRead (instances (app w)) k, writer (mu (app w)))) w
                                  (afterFn env cb k' v w)"
    and first: "Make (Suc n) env a w = Return v w'"
  shows "(\<exists>x wf w4.
            factoryFn env i (w\<lparr>app := (app w)\<lparr>buildStack := buildStack (app w) @ [k]\<rparr>\<rparr>) = Return x wf
          \<and> applyExtenders env k x (wf\<lparr>app := (app wf)\<lparr>buildStack := butlast (buildStack (app wf))\<rparr>\<rparr>)
              = Return v w4
          \<and> (afterResolving (app w4) = [] \<longrightarrow>
                w' = w4\<lparr>app := (app w4)\<lparr>instances := mapAssign (instances (app w4)) k v\<rparr>\<rparr>))
       \<and> mapRead (instances (app w')) k = Some v
       \<and> Make (Suc m) env' a w' = Return v w'"
proof -
  have nw: "\<not> writer (mu (app w))"
  proof
    assume "writer (mu (app w))"
    then have "Make (Suc n) env a w = Halt Deadlock w" by (simp add: Make_def make_body_held)
    with first show False by simp
  qed
  have "make_body (make n env) env a w
      = runFactory (make n env) env (canonical (app w) a)
          (factory \<lparr>factory = UserFactory i, singleton = True\<rparr>)
          (singleton \<lparr>factory = UserFactory i, singleton = True\<rparr>) w"
    by (rule make_body_bound [OF nw]) (use bound fresh noctx in \<open>simp_all add: key [symmetric]\<close>)
  with first have run: "runFactory (make n env) env k (UserFactory i) True w = Return v w'"
    by (simp add: Make_def key [symmetric])
  from runFactory_Return [OF run] obtain x w1 w4 w5 where
    cf: "callFactory (make n env) env (UserFactory i)
           (w\<lparr>app := (app w)\<lparr>buildStack := buildStack (app w) @ [k]\<rparr>\<rparr>) = Return x w1"
    and ex: "(if slice_at (extenders (app w1)) k \<noteq> []
             then applyExtenders env k x (w1\<lparr>app := (app w1)\<lparr>buildStack := butlast (buildStack (app w1))\<rparr>\<rparr>)
             else Return x (w1\<lparr>app := (app w1)\<lparr>buildStack := butlast (buildStack (app w1))\<rparr>\<rparr>))
            = Return v w4"
    and ci: "(if True then cacheInstance k v w4 else Return () w4) = Return () w5"
    and fa: "fireAfterResolving env k v w5 = Return () w'"
    by blast
  from ci have ci': "cacheInstance k v w4 = Return () w5" by simp
  from cacheInstance_Return [OF ci']
  have w5: "w5 = w4\<lparr>app := (app w4)\<lparr>instances := mapAssign (instances (app w4)) k v\<rparr>\<rparr>"
    and m4: "mu (app w4) = unlocked" by simp_all
  have once: "w' = w4\<lparr>app := (app w4)\<lparr>instances := mapAssign (instances (app w4)) k v\<rparr>\<rparr>"
    if "afterResolving (app w4) = []"
    using fa that m4 by (simp add: fireAfterResolving_def reading_eq w5 unlocked_def)
  from cf have f: "factoryFn env i (w\<lparr>app := (app w)\<lparr>buildStack := buildStack (app w) @ [k]\<rparr>\<rparr>) = Return x w1"
    by (simp add: callFactory_def)
  have "applyExtenders env k x (w1\<lparr>app := (app w1)\<lparr>buildStack := butlast (buildStack (app w1))\<rparr>\<rparr>)
      = Return v w4"
  proof (cases "slice_at (extenders (app w1)) k = []")
    case True
    with ex have "Return x (w1\<lparr>app := (app w1)\<lparr>buildStack := butlast (buildStack (app w1))\<rparr>\<rparr>)
        = Return v w4" by simp
    moreover have "applyExtenders env k x (w1\<lparr>app := (app w1)\<lparr>buildStack := butlast (buildStack (app w1))\<rparr>\<rparr>)
        = Return x (w1\<lparr>app := (app w1)\<lparr>buildStack := butlast (buildStack (app w1))\<rparr>\<rparr>)"
      using True by (simp add: applyExtenders_def)
    ultimately show ?thesis by (simp only:)
  next
    case False
    with ex show ?thesis by simp
  qed
  with f once have a: "\<exists>x wf w4.
            factoryFn env i (w\<lparr>app := (app w)\<lparr>buildStack := buildStack (app w) @ [k]\<rparr>\<rparr>) = Return x wf
          \<and> applyExtenders env k x (wf\<lparr>app := (app wf)\<lparr>buildStack := butlast (buildStack (app wf))\<rparr>\<rparr>)
              = Return v w4
          \<and> (afterResolving (app w4) = [] \<longrightarrow>
                w' = w4\<lparr>app := (app w4)\<lparr>instances := mapAssign (instances (app w4)) k v\<rparr>\<rparr>)"
    by blast
  have c: "mapRead (instances (app w')) k = Some v \<and> \<not> writer (mu (app w'))"
    by (rule runFactory_singleton_caches [OF run observers]) simp
  have "keeps (\<lambda>w. canonical (app w) a) w (runFactory (make n env) env k (UserFactory i) True w)"
    by (rule runFactory_keeps [OF _ closures_keep_builders [OF names]
          make_keeps [OF _ closures_keep_builders [OF names]]])
       (simp_all add: resolution_blind_def)
  with run have "canonical (app w') a = k" by (simp add: key)
  with c have "\<not> writer (mu (app w'))" and "mapRead (instances (app w')) (canonical (app w') a) = Some v"
    by simp_all
  then have "make_body (make m env') env' a w' = Return v w'" by (rule make_body_cached)
  then have s: "Make (Suc m) env' a w' = Return v w'" by (simp add: Make_def)
  from a c s show ?thesis by blast
qed

lemma allocEnv_names: "closures_keep (\<lambda>w. canonical (app w) a) allocEnv"
  by (simp add: closures_keep_def builders_keep_def allocEnv_def quietEnv_def)

lemma allocEnv_observers:
  "\<forall>cb k' v w. keeps g w (afterFn allocEnv cb k' v w)"
  by (simp add: allocEnv_def quietEnv_def)

theorem singleton_make_twice_witness:
  "Singleton (Suc 0) allocEnv ''cache'' (UserFactory 0) (flushedWorld 0) = Return () allocBound
   \<and> Make (Suc 0) allocEnv ''cache'' allocBound = Return (VPtr 0) allocResolved
   \<and> Make (Suc 0) allocEnv ''cache'' allocResolved = Return (VPtr 0) allocResolved
   \<and> user allocBound = 0 \<and> user allocResolved = 1
   \<and> factoryFn allocEnv 0 (allocBound\<lparr>app := (app allocBound)\<lparr>buildStack := [''cache'']\<rparr>\<rparr>)
       = Return (VPtr 0) (allocBound\<lparr>app := (app allocBound)\<lparr>buildStack := [''cache'']\<rparr>, user := 1\<rparr>)"
proof -
  have k: "''cache'' = canonical (app allocBound) ''cache''"
    by (simp add: allocBound_def eval_defs)
  have b: "mapRead (bindings (app allocBound)) ''cache'' = Some \<lparr>factory = UserFactory 0, singleton = True\<rparr>"
    and f: "mapRead (instances (app allocBound)) ''cache'' = None"
    and e: "entryOf (app allocBound) ''cache'' = None \<or> entryOf (app allocBound) ''cache'' = Some NilFactory"
    by (simp_all add: allocBound_def flushedWorld_def flushedContainer_def mapRead_def entryOf_def)
  have s: "Singleton (Suc 0) allocEnv ''cache'' (UserFactory 0) (flushedWorld 0) = Return () allocBound"
    by (simp add: allocBound_def eval_defs)
  have first: "Make (Suc 0) allocEnv ''cache'' allocBound = Return (VPtr 0) allocResolved"
    by (simp add: allocBound_def allocResolved_def allocEnv_def eval_defs)
  from singleton_make_twice [OF k b f e allocEnv_names allocEnv_observers first, of 0 allocEnv]
  have "Make (Suc 0) allocEnv ''cache'' allocResolved = Return (VPtr 0) allocResolved"
    by blast
  moreover have "user allocBound = 0 \<and> user allocResolved = 1"
    by (simp add: allocBound_def allocResolved_def flushedWorld_def)
  moreover have "factoryFn allocEnv 0 (allocBound\<lparr>app := (app allocBound)\<lparr>buildStack := [''cache'']\<rparr>\<rparr>)
       = Return (VPtr 0) (allocBound\<lparr>app := (app allocBound)\<lparr>buildStack := [''cache'']\<rparr>, user := 1\<rparr>)"
    by (simp add: allocEnv_def allocBound_def flushedWorld_def)
  ultimately show ?thesis using s first by simp
qed

text \<open>
  Claim C7 as stated fails for a singleton resolved where a contextual entry applies:
  the entry's factory is run at every \<^verbatim>\<open>Make\<close> and nothing is cached. While
  \<^verbatim>\<open>"Consumer"\<close> is being built, two \<^verbatim>\<open>Make("Dep")\<close> in a row return the
  pointers 0 and 1, and the consumer that compares them finds them different.
\<close>

theorem contextual_singleton_counterexample:
  "andThen (Singleton (Suc 0) twiceEnv ''Dep'' (UserFactory 0) (flushedWorld 0))
     (\<lambda>_ w. andThen (Give ''Consumer'' ''Dep'' (UserFactory 1) w)
        (\<lambda>_ w. Bind (Suc 0) twiceEnv ''Consumer'' (UserFactory 2) w)) = Return () twiceWired
   \<and> mapRead (bindings (app twiceWired)) ''Dep'' = Some \<lparr>factory = UserFactory 0, singleton = True\<rparr>
   \<and> Make (Suc 0) allocEnv ''Dep'' (twiceWired\<lparr>app := (app twiceWired)\<lparr>buildStack := [''Consumer'']\<rparr>\<rparr>)
       = Return (VPtr 0) (twiceWired\<lparr>app := (app twiceWired)\<lparr>buildStack := [''Consumer'']\<rparr>, user := 1\<rparr>)
   \<and> Make (Suc 0) allocEnv ''Dep''
        (twiceWired\<lparr>app := (app twiceWired)\<lparr>buildStack := [''Consumer'']\<rparr>, user := 1\<rparr>)
       = Return (VPtr 1) (twiceWired\<lparr>app := (app twiceWired)\<lparr>buildStack := [''Consumer'']\<rparr>, user := 2\<rparr>)
   \<and> Make (Suc 0) twiceEnv ''Consumer'' twiceWired = Return (VInt 0) (twiceWired\<lparr>user := 2\<rparr>)
   \<and> mapRead (instances (app (twiceWired\<lparr>user := 2\<rparr>))) ''Dep'' = None"
  by (simp add: eval_defs twiceEnv_def allocEnv_def twiceWired_def Give_def fun_upd_twist)

section \<open>Unregistered abstracts\<close>

lemma failsUnregistered_simps [simp]:
  "failsUnregistered a (Return x s) = False"
  "failsUnregistered a (Panic e s) = (e = NoBinding a)"
  "failsUnregistered a (Halt h s) = False"
  "failsUnregistered a Diverge = False"
  by (simp_all add: failsUnregistered_def)

lemma failsUnregistered_andThen:
  assumes "\<not> failsUnregistered a m" and "\<And>x s. \<not> failsUnregistered a (k x s)"
  shows "\<not> failsUnregistered a (andThen m k)"
  using assms by (cases m) simp_all

lemma runExtenders_never:
  assumes "\<forall>e v w. \<not> failsUnregistered a (extenderFn env e v w)"
  shows "\<not> failsUnregistered a (runExtenders env es v w)"
proof (induction es arbitrary: v w)
  case Nil
  show ?case by simp
next
  case (Cons e es)
  show ?case
    unfolding runExtenders.simps
    by (rule failsUnregistered_andThen) (use assms in simp, rule Cons.IH)
qed

lemma runAfter_never:
  assumes "\<forall>cb k v w. \<not> failsUnregistered a (afterFn env cb k v w)"
  shows "\<not> failsUnregistered a (runAfter env cbs k v w)"
proof (induction cbs arbitrary: w)
  case Nil
  show ?case by simp
next
  case (Cons c cbs)
  show ?case
    unfolding runAfter.simps
    by (rule failsUnregistered_andThen) (use assms in simp, rule Cons.IH)
qed

lemma reading_never: "\<not> failsUnregistered a (reading f w)"
  by (simp add: reading_eq)

lemma cacheInstance_never: "\<not> failsUnregistered a (cacheInstance k v w)"
  by (simp add: cacheInstance_def Lock_def Unlock_def)

lemma popStack_never: "\<not> failsUnregistered a (popStack w)"
  by (simp add: popStack_def)

lemma callFactory_never:
  assumes "never_unregistered a env" and "\<not> isTrigger f"
  shows "\<not> failsUnregistered a (callFactory mk env f w)"
  using assms by (cases f) (simp_all add: callFactory_def never_unregistered_def isTrigger_def)

lemma runFactory_never:
  assumes quiet: "never_unregistered a env" and f: "\<not> isTrigger f"
  shows "\<not> failsUnregistered a (runFactory mk env k f sing w)"
proof -
  have ext: "\<forall>e v w. \<not> failsUnregistered a (extenderFn env e v w)"
    and aft: "\<forall>cb k v w. \<not> failsUnregistered a (afterFn env cb k v w)"
    using quiet by (simp_all add: never_unregistered_def)
  show ?thesis
    unfolding runFactory_def
  proof (rule failsUnregistered_andThen [OF callFactory_never [OF quiet f]], goal_cases)
    case (1 inst w1)
    show ?case
    proof (rule failsUnregistered_andThen [OF popStack_never], goal_cases)
      case (1 u w2)
      show ?case
      proof (rule failsUnregistered_andThen [OF reading_never], goal_cases)
        case (1 exts w3)
        have "\<not> failsUnregistered a (if exts \<noteq> [] then applyExtenders env k inst w3 else Return inst w3)"
          using runExtenders_never [OF ext] by (simp add: applyExtenders_def)
        then show ?case
        proof (rule failsUnregistered_andThen, goal_cases)
          case (1 inst' w4)
          have "\<not> failsUnregistered a (if sing then cacheInstance k inst' w4 else Return () w4)"
            by (simp add: cacheInstance_never)
          then show ?case
          proof (rule failsUnregistered_andThen, goal_cases)
            case (1 u' w5)
            have "\<not> failsUnregistered a (fireAfterResolving env k inst' w5)"
              unfolding fireAfterResolving_def
              by (rule failsUnregistered_andThen [OF reading_never]) (rule runAfter_never [OF aft])
            then show ?case
              by (rule failsUnregistered_andThen) simp
          qed
        qed
      qed
    qed
  qed
qed

text \<open>
  Claim C8, as amended. At the canonical key \<^verbatim>\<open>k\<close> of the name, \<^verbatim>\<open>Make\<close> does
  one of five things. It blocks, when a writer holds the lock. It returns the cached
  instance. It runs the factory of the contextual entry for the top of the build stack
  and the name, uncached. It runs the factory of the binding. Or, with no instance, no
  applicable entry and no binding, it panics with the unregistered-abstract error, at
  once and with the heap untouched. So with user code that never ends in that error
  itself, and factories that are not the lazy trigger of a deferred provider,
  \<^verbatim>\<open>Make\<close> fails with it exactly in the fifth case: the failure is a panic of its
  own, never a returned value, and a factory that returns nil makes \<^verbatim>\<open>Make\<close> return
  nil.
\<close>

theorem make_unregistered:
  assumes key: "k = canonical (app w) a"
  shows "(writer (mu (app w)) \<longrightarrow> Make (Suc n) env a w = Halt Deadlock w)
   \<and> (\<not> writer (mu (app w)) \<and> mapRead (instances (app w)) k = Some inst \<longrightarrow>
        Make (Suc n) env a w = Return inst w)
   \<and> (\<not> writer (mu (app w)) \<and> mapRead (instances (app w)) k = None
        \<and> entryOf (app w) a = Some f \<and> f \<noteq> NilFactory \<longrightarrow>
        Make (Suc n) env a w = runFactory (make n env) env k f False w)
   \<and> (\<not> writer (mu (app w)) \<and> mapRead (instances (app w)) k = None
        \<and> (entryOf (app w) a = None \<or> entryOf (app w) a = Some NilFactory)
        \<and> mapRead (bindings (app w)) k = Some b \<longrightarrow>
        Make (Suc n) env a w = runFactory (make n env) env k (factory b) (singleton b) w)
   \<and> (\<not> writer (mu (app w)) \<and> mapRead (instances (app w)) k = None
        \<and> (entryOf (app w) a = None \<or> entryOf (app w) a = Some NilFactory)
        \<and> mapRead (bindings (app w)) k = None \<longrightarrow>
        Make (Suc n) env a w = Panic (NoBinding a) w)
   \<and> (never_unregistered a env
        \<and> (case entryOf (app w) a of None \<Rightarrow> True | Some g \<Rightarrow> \<not> isTrigger g)
        \<and> (case mapRead (bindings (app w)) k of None \<Rightarrow> True | Some c \<Rightarrow> \<not> isTrigger (factory c)) \<longrightarrow>
        (failsUnregistered a (Make (Suc n) env a w) \<longleftrightarrow>
           \<not> writer (mu (app w)) \<and> mapRead (instances (app w)) k = None
           \<and> (entryOf (app w) a = None \<or> entryOf (app w) a = Some NilFactory)
           \<and> mapRead (bindings (app w)) k = None))"
proof -
  have held: "Make (Suc n) env a w = Halt Deadlock w" if "writer (mu (app w))"
    using that by (simp add: Make_def make_body_held)
  have hit: "Make (Suc n) env a w = Return inst w"
    if "\<not> writer (mu (app w))" "mapRead (instances (app w)) k = Some inst" for inst
    using that by (simp add: Make_def make_body_cached key)
  have ctx: "Make (Suc n) env a w = runFactory (make n env) env k f False w"
    if "\<not> writer (mu (app w))" "mapRead (instances (app w)) k = None"
       "entryOf (app w) a = Some f" "f \<noteq> NilFactory" for f
    using that by (simp add: Make_def make_body_contextual key)
  have bnd: "Make (Suc n) env a w = runFactory (make n env) env k (factory b) (singleton b) w"
    if "\<not> writer (mu (app w))" "mapRead (instances (app w)) k = None"
       "entryOf (app w) a = None \<or> entryOf (app w) a = Some NilFactory"
       "mapRead (bindings (app w)) k = Some b" for b
    using that by (simp add: Make_def make_body_bound key)
  have unb: "Make (Suc n) env a w = Panic (NoBinding a) w"
    if "\<not> writer (mu (app w))" "mapRead (instances (app w)) k = None"
       "entryOf (app w) a = None \<or> entryOf (app w) a = Some NilFactory"
       "mapRead (bindings (app w)) k = None"
    using that by (simp add: Make_def make_body_unbound key)
  have iff: "failsUnregistered a (Make (Suc n) env a w) \<longleftrightarrow>
           \<not> writer (mu (app w)) \<and> mapRead (instances (app w)) k = None
           \<and> (entryOf (app w) a = None \<or> entryOf (app w) a = Some NilFactory)
           \<and> mapRead (bindings (app w)) k = None"
    if quiet: "never_unregistered a env"
      and e: "case entryOf (app w) a of None \<Rightarrow> True | Some g \<Rightarrow> \<not> isTrigger g"
      and c: "case mapRead (bindings (app w)) k of None \<Rightarrow> True | Some c \<Rightarrow> \<not> isTrigger (factory c)"
  proof (cases "writer (mu (app w))")
    case True
    then show ?thesis by (simp add: held)
  next
    case nw: False
    show ?thesis
    proof (cases "mapRead (instances (app w)) k")
      case (Some inst)
      with nw show ?thesis by (simp add: hit)
    next
      case miss: None
      show ?thesis
      proof (cases "entryOf (app w) a = None \<or> entryOf (app w) a = Some NilFactory")
        case False
        then obtain f where f: "entryOf (app w) a = Some f" "f \<noteq> NilFactory" by auto
        with e have "\<not> isTrigger f" by simp
        from runFactory_never [OF quiet this] ctx [OF nw miss f] False
        show ?thesis by simp
      next
        case noentry: True
        show ?thesis
        proof (cases "mapRead (bindings (app w)) k")
          case None
          with nw miss noentry show ?thesis by (simp add: unb)
        next
          case (Some b)
          with c have "\<not> isTrigger (factory b)" by simp
          from runFactory_never [OF quiet this] bnd [OF nw miss noentry Some] Some
          show ?thesis by simp
        qed
      qed
    qed
  qed
  from held hit ctx bnd unb iff show ?thesis by blast
qed

lemma nilEnv_never: "never_unregistered a nilEnv"
  by (simp add: never_unregistered_def nilEnv_def quietEnv_def)

theorem make_unregistered_witness:
  "Make (Suc 0) nilEnv ''x'' nilBound = Return VNil nilBound
   \<and> \<not> failsUnregistered ''x'' (Make (Suc 0) nilEnv ''x'' nilBound)
   \<and> Make (Suc 0) nilEnv ''y'' nilBound = Panic (NoBinding ''y'') nilBound
   \<and> failsUnregistered ''y'' (Make (Suc 0) nilEnv ''y'' nilBound)"
proof -
  have kx: "''x'' = canonical (app nilBound) ''x''" and ky: "''y'' = canonical (app nilBound) ''y''"
    by (simp_all add: nilBound_def eval_defs)
  have facts: "\<not> writer (mu (app nilBound))"
    "mapRead (instances (app nilBound)) ''x'' = None"
    "mapRead (instances (app nilBound)) ''y'' = None"
    "entryOf (app nilBound) ''x'' = None" "entryOf (app nilBound) ''y'' = None"
    "mapRead (bindings (app nilBound)) ''x'' = Some \<lparr>factory = UserFactory 0, singleton = False\<rparr>"
    "mapRead (bindings (app nilBound)) ''y'' = None"
    by (simp_all add: nilBound_def flushedWorld_def flushedContainer_def unlocked_def mapRead_def
        entryOf_def)
  note x = make_unregistered [OF kx, where n = 0 and env = nilEnv
      and b = "\<lparr>factory = UserFactory 0, singleton = False\<rparr>"]
  note y = make_unregistered [OF ky, where n = 0 and env = nilEnv]
  have run: "runFactory (make 0 nilEnv) nilEnv ''x'' (UserFactory 0) False nilBound = Return VNil nilBound"
    by (simp add: nilBound_def nilEnv_def eval_defs)
  from x facts have "Make (Suc 0) nilEnv ''x'' nilBound
      = runFactory (make 0 nilEnv) nilEnv ''x'' (UserFactory 0) False nilBound"
    by simp
  with run have 1: "Make (Suc 0) nilEnv ''x'' nilBound = Return VNil nilBound" by simp
  from 1 have 2: "\<not> failsUnregistered ''x'' (Make (Suc 0) nilEnv ''x'' nilBound)"
    by simp
  from y facts have 3: "Make (Suc 0) nilEnv ''y'' nilBound = Panic (NoBinding ''y'') nilBound"
    by simp
  from y facts nilEnv_never [of "''y''"] have 4: "failsUnregistered ''y'' (Make (Suc 0) nilEnv ''y'' nilBound)"
    by (simp add: isTrigger_def)
  from 1 2 3 4 show ?thesis by simp
qed

text \<open>
  Claim C8 as stated fails inside a build: nothing is bound or cached for \<^verbatim>\<open>"Dep"\<close>,
  and \<^verbatim>\<open>Make("Dep")\<close> panics from outside a build, yet while \<^verbatim>\<open>"Consumer"\<close> is on
  top of the build stack the same call returns the contextual 42, and so does the
  \<^verbatim>\<open>Make("Consumer")\<close> whose factory makes that call.
\<close>

theorem contextual_without_binding_counterexample:
  "andThen (Bind (Suc 0) consumerEnv ''Consumer'' (UserFactory 0) (flushedWorld ()))
     (\<lambda>_ w. GiveValue ''Consumer'' ''Dep'' (VInt 42) w) = Return () consumerOnly
   \<and> mapRead (bindings (app consumerOnly)) (canonical (app consumerOnly) ''Dep'') = None
   \<and> mapRead (instances (app consumerOnly)) (canonical (app consumerOnly) ''Dep'') = None
   \<and> Make (Suc 0) consumerEnv ''Dep'' consumerOnly = Panic (NoBinding ''Dep'') consumerOnly
   \<and> Make (Suc 0) consumerEnv ''Dep''
        (consumerOnly\<lparr>app := (app consumerOnly)\<lparr>buildStack := [''Consumer'']\<rparr>\<rparr>)
       = Return (VInt 42) (consumerOnly\<lparr>app := (app consumerOnly)\<lparr>buildStack := [''Consumer'']\<rparr>\<rparr>)
   \<and> Make (Suc 0) consumerEnv ''Consumer'' consumerOnly = Return (VInt 42) consumerOnly"
  by (simp add: eval_defs consumerEnv_def consumerOnly_def Give_def GiveValue_def)

section \<open>Contextual entries\<close>

text \<open>
  Claim C6 at a failing input. \<^verbatim>\<open>"Dep"\<close> is bound as a singleton and
  \<^verbatim>\<open>"Consumer"\<close> has a contextual entry for it. From outside a build, and from the
  build of \<^verbatim>\<open>"Other"\<close>, \<^verbatim>\<open>Make("Dep")\<close> gives the default binding's pointer and
  caches it. The build of \<^verbatim>\<open>"Consumer"\<close> fails after it has resolved its dependency,
  and \<^verbatim>\<open>runFactory\<close> leaves \<^verbatim>\<open>"Consumer"\<close> on the build stack. From then on a
  \<^verbatim>\<open>Make("Dep")\<close> from outside any build is given the contextual 42, uncached, and
  not the default binding.
\<close>

theorem stale_entry_serves_contextual:
  "andThen (Singleton (Suc 0) reportEnv ''Dep'' (UserFactory 0) (flushedWorld ()))
     (\<lambda>_ w. andThen (Bind (Suc 0) reportEnv ''Consumer'' (UserFactory 1) w)
        (\<lambda>_ w. andThen (Bind (Suc 0) reportEnv ''Other'' (UserFactory 2) w)
           (\<lambda>_ w. GiveValue ''Consumer'' ''Dep'' (VInt 42) w))) = Return () reportWired
   \<and> Make (Suc 0) reportEnv ''Dep'' reportWired
       = Return (VPtr 0)
           (reportWired\<lparr>app := (app reportWired)\<lparr>instances := Some [''Dep'' \<mapsto> VPtr 0]\<rparr>\<rparr>)
   \<and> Make (Suc 0) reportEnv ''Other'' reportWired
       = Return (VPtr 0)
           (reportWired\<lparr>app := (app reportWired)\<lparr>instances := Some [''Dep'' \<mapsto> VPtr 0]\<rparr>\<rparr>)
   \<and> Make (Suc 0) reportEnv ''Consumer'' reportWired = Panic (NoBinding ''Mailer'') reportStale
   \<and> buildStack (app reportWired) = [] \<and> buildStack (app reportStale) = [''Consumer'']
   \<and> Make (Suc 0) reportEnv ''Dep'' reportStale = Return (VInt 42) reportStale
   \<and> mapRead (instances (app reportStale)) ''Dep'' = None"
  by (simp add: eval_defs reportEnv_def reportWired_def reportStale_def Give_def GiveValue_def
      fun_upd_twist)

section \<open>Frames through registration\<close>

lemma bind_keeps:
  assumes blind: "resolution_blind g"
    and bnd: "\<And>w b. g (w\<lparr>app := (app w)\<lparr>bindings := b\<rparr>\<rparr>) = g w"
    and reb: "\<forall>cb v w. keeps g w (reboundFn env cb v w)"
    and mk: "\<And>a w. keeps g w (mk a w)"
  shows "keeps g w (bind mk env a f sing w)"
proof -
  have mu: "\<And>w m. g (w\<lparr>app := (app w)\<lparr>mu := m\<rparr>\<rparr>) = g w"
    and ins: "\<And>w i. g (w\<lparr>app := (app w)\<lparr>instances := i\<rparr>\<rparr>) = g w"
    using blind by (simp_all add: resolution_blind_def)
  let ?k = "canonical (app w) a"
  let ?w1 = "w\<lparr>app := (app w)\<lparr>instances := mapDelete (instances (app w)) ?k\<rparr>\<rparr>"
  let ?w2 = "?w1\<lparr>app := (app ?w1)\<lparr>bindings := mapAssign (bindings (app ?w1)) ?k \<lparr>factory = f, singleton = sing\<rparr>\<rparr>\<rparr>"
  have g1: "g ?w1 = g w" by (rule ins)
  have g2: "g ?w2 = g w" using bnd [where w = ?w1] g1 by simp
  have win: "keeps g ?w2
     (andThen (Unlock ?w2)
        (\<lambda>_ w3. andThen (mk a w3)
           (\<lambda>v w4. andThen (fireRebound env a v w4) (\<lambda>_ w5. Lock w5))))"
  proof (rule keeps_andThen [OF Unlock_keeps], goal_cases)
    case (1 m)
    show ?case by (rule mu)
  next
    case (2 u w3)
    show ?case
    proof (rule keeps_andThen [OF mk], goal_cases)
      case (1 v w4)
      show ?case
      proof (rule keeps_andThen [OF fireRebound_keeps [OF reb]], goal_cases)
        case (1 u' w5)
        show ?case by (rule Lock_keeps) (rule mu)
      qed
    qed
  qed
  have "keeps g ?w2
     (if (case mapRead (instances (app w)) ?k of Some v \<Rightarrow> v \<noteq> VNil | None \<Rightarrow> False) then
        andThen (Unlock ?w2)
          (\<lambda>_ w3. andThen (mk a w3)
             (\<lambda>v w4. andThen (fireRebound env a v w4) (\<lambda>_ w5. Lock w5)))
      else Return () ?w2)"
    using win by simp
  then have "keeps g w
     (if (case mapRead (instances (app w)) ?k of Some v \<Rightarrow> v \<noteq> VNil | None \<Rightarrow> False) then
        andThen (Unlock ?w2)
          (\<lambda>_ w3. andThen (mk a w3)
             (\<lambda>v w4. andThen (fireRebound env a v w4) (\<lambda>_ w5. Lock w5)))
      else Return () ?w2)"
    by (rule keeps_from) (rule g2)
  moreover have "keeps g w (Panic NilMapWrite ?w1)" using g1 by simp
  ultimately show ?thesis
    unfolding bind_def Let_def by simp
qed

lemma locked_keeps:
  assumes mu: "\<And>w m. g (w\<lparr>app := (app w)\<lparr>mu := m\<rparr>\<rparr>) = g w"
    and body: "\<And>w. keeps g w (body w)"
  shows "keeps g w (locked body w)"
  unfolding locked_def
proof (rule keeps_andThen [OF Lock_keeps], goal_cases)
  case (1 m)
  show ?case by (rule mu)
next
  case (2 u w1)
  show ?case
    by (rule keeps_deferring [OF body]) (rule Unlock_keeps, rule mu)
qed

lemma Bind_keeps:
  assumes blind: "resolution_blind g"
    and bnd: "\<And>w b. g (w\<lparr>app := (app w)\<lparr>bindings := b\<rparr>\<rparr>) = g w"
    and frame: "closures_keep g env"
  shows "keeps g w (Bind n env a f w)" and "keeps g w (Singleton n env a f w)"
proof -
  have mu: "\<And>w m. g (w\<lparr>app := (app w)\<lparr>mu := m\<rparr>\<rparr>) = g w"
    using blind by (simp add: resolution_blind_def)
  have reb: "\<forall>cb v w. keeps g w (reboundFn env cb v w)"
    using frame by (simp add: closures_keep_def)
  have mk: "\<And>a w. keeps g w (make n env a w)"
    by (rule make_keeps [OF blind closures_keep_builders [OF frame]])
  show "keeps g w (Bind n env a f w)"
    unfolding Bind_def by (rule locked_keeps [OF mu bind_keeps [OF blind bnd reb mk]])
  show "keeps g w (Singleton n env a f w)"
    unfolding Singleton_def by (rule locked_keeps [OF mu bind_keeps [OF blind bnd reb mk]])
qed

section \<open>Deferred providers\<close>

text \<open>
  Claim C1 at a failing input. The provider is registered on a new registry over a
  flushed container: its \<^verbatim>\<open>Register\<close> is not called, and both keys are marked
  deferred. \<^verbatim>\<open>Make("a")\<close> runs \<^verbatim>\<open>Register\<close> for the first time and removes the
  marker of \<^verbatim>\<open>"a"\<close> only. \<^verbatim>\<open>Make("b")\<close> then finds the lazy trigger of
  \<^verbatim>\<open>"b"\<close> still bound and its marker still set, and runs \<^verbatim>\<open>Register\<close> a second
  time: the guard of the trigger asks for the marker of the key, and the flag of the
  provider, set by the registry before the trigger is installed, never lets it pass.
\<close>

theorem deferred_Register_runs_twice:
  "(case Register (Suc 0) countingEnv 0 (flushedWorld 0) of
      Return _ w \<Rightarrow> user w = 0 \<and> deferred (reg w) = [''a'' \<mapsto> 0, ''b'' \<mapsto> 0] \<and> registered (reg w) 0
    | _ \<Rightarrow> False)
   \<and> (case andThen (Register (Suc 0) countingEnv 0 (flushedWorld 0))
              (\<lambda>_ w. Make (Suc (Suc 0)) countingEnv ''a'' w) of
         Return x w \<Rightarrow> x = VPtr 0 \<and> user w = 1 \<and> deferred (reg w) = [''b'' \<mapsto> 0]
       | _ \<Rightarrow> False)
   \<and> (case andThen (Register (Suc 0) countingEnv 0 (flushedWorld 0))
              (\<lambda>_ w. andThen (Make (Suc (Suc 0)) countingEnv ''a'' w)
                 (\<lambda>_ w. Make (Suc (Suc 0)) countingEnv ''b'' w)) of
         Return y w \<Rightarrow> y = VPtr 1 \<and> user w = 2 \<and> deferred (reg w) = Map.empty
       | _ \<Rightarrow> False)"
  by (simp add: eval_defs Register_def interceptDeferred_def countingEnv_def fun_upd_twist)

section \<open>Booting the providers\<close>

lemma eagerBoots_user [simp]:
  "eagerBoots env lg (w\<lparr>reg := r\<rparr>) = eagerBoots env lg w"
  "eagerBoots env lg (w\<lparr>app := c\<rparr>) = eagerBoots env lg w"
  by (simp_all add: eagerBoots_def)

lemma bootLoop_lifecycle:
  assumes boots: "\<forall>p w w'. provBoot env p w = Return () w' \<longrightarrow>
        lifecycle env lg w' =
          (eagerBoots env lg w @ (if provIsDeferred env p then [] else [p]),
           booted (reg w), eager (reg w), registered (reg w))"
  shows "bootLoop env ps w = Return () w' \<Longrightarrow> list_all (\<lambda>p. \<not> provIsDeferred env p) ps \<Longrightarrow>
         lifecycle env lg w' = (eagerBoots env lg w @ ps, booted (reg w), eager (reg w), registered (reg w))"
proof (induction ps arbitrary: w)
  case Nil
  then show ?case by (simp add: lifecycle_def)
next
  case (Cons p ps)
  from Cons.prems(1) [unfolded bootLoop.simps andThen_Return_iff] obtain u w1 where
    b: "provBoot env p w = Return u w1" and l: "bootLoop env ps w1 = Return () w'"
    by blast
  from b have b': "provBoot env p w = Return () w1" by simp
  from boots b' Cons.prems(2)
  have 1: "lifecycle env lg w1 = (eagerBoots env lg w @ [p], booted (reg w), eager (reg w), registered (reg w))"
    by simp
  from Cons.prems(2) have "list_all (\<lambda>p. \<not> provIsDeferred env p) ps" by simp
  from Cons.IH [OF l this] 1 show ?case by (simp add: lifecycle_def)
qed

lemma bootLoop_returns:
  assumes "\<forall>p w. \<exists>w'. provBoot env p w = Return () w'"
  shows "\<exists>w'. bootLoop env ps w = Return () w'"
proof (induction ps arbitrary: w)
  case Nil
  show ?case by simp
next
  case (Cons p ps)
  from assms obtain w1 where "provBoot env p w = Return () w1" by blast
  with Cons.IH [of w1] show ?case by simp
qed

text \<open>
  Claim C9. The providers record their own boots: a \<^verbatim>\<open>Boot\<close> method that returns
  has added its provider to the record once and has left the registry's lifecycle fields
  as they were, whatever else it did (the boot of a deferred provider that it triggered
  is not a boot of an eager one); a \<^verbatim>\<open>Register\<close> method that returns has left
  record and fields alone. A new registry has an eager list without duplicates, of
  registered eager providers, and \<^verbatim>\<open>Boot\<close> and the registration of an eager provider
  keep it so. Then a \<^verbatim>\<open>Boot\<close> of the registry that returns has run the
  \<^verbatim>\<open>Boot\<close> of every eager provider once, in registration order, and a second
  \<^verbatim>\<open>Boot\<close> returns at once with the heap as it is. \<^verbatim>\<open>Register\<close> of a new eager
  provider appends it to the eager list and, on a booted registry, runs its \<^verbatim>\<open>Boot\<close>
  once, at once; registering it again changes nothing, and the eager list stays free of
  duplicates. \<^verbatim>\<open>Boot\<close> returns whenever the providers' \<^verbatim>\<open>Boot\<close> methods do.
\<close>

theorem Boot_once:
  assumes boots: "\<forall>p w w'. provBoot env p w = Return () w' \<longrightarrow>
        lifecycle env lg w' =
          (eagerBoots env lg w @ (if provIsDeferred env p then [] else [p]),
           booted (reg w), eager (reg w), registered (reg w))"
    and registers: "\<forall>p w w'. provRegister env p w = Return () w' \<longrightarrow> lifecycle env lg w' = lifecycle env lg w"
  shows "registry_ok env NewProviderRegistry
       \<and> (\<not> booted (reg w) \<and> registry_ok env (reg w) \<and> Boot env w = Return () w' \<longrightarrow>
            eagerBoots env lg w' = eagerBoots env lg w @ eager (reg w)
            \<and> booted (reg w') \<and> eager (reg w') = eager (reg w)
            \<and> registered (reg w') = registered (reg w)
            \<and> registry_ok env (reg w')
            \<and> Boot env w' = Return () w')
       \<and> (booted (reg w) \<longrightarrow> Boot env w = Return () w)
       \<and> (\<not> registered (reg w) p \<and> \<not> provIsDeferred env p \<and> Register n env p w = Return () w' \<longrightarrow>
            eagerBoots env lg w' = eagerBoots env lg w @ (if booted (reg w) then [p] else [])
            \<and> eager (reg w') = eager (reg w) @ [p]
            \<and> booted (reg w') = booted (reg w)
            \<and> registered (reg w') = (registered (reg w))(p := True)
            \<and> Register n env p w' = Return () w'
            \<and> (registry_ok env (reg w) \<longrightarrow> registry_ok env (reg w')))
       \<and> ((\<forall>q s. \<exists>s'. provBoot env q s = Return () s') \<longrightarrow> (\<exists>s'. Boot env w = Return () s'))"
proof (intro conjI impI)
  show "registry_ok env NewProviderRegistry"
    by (simp add: registry_ok_def NewProviderRegistry_def)
next
  assume h: "\<not> booted (reg w) \<and> registry_ok env (reg w) \<and> Boot env w = Return () w'"
  let ?w0 = "w\<lparr>reg := (reg w)\<lparr>booted := True\<rparr>\<rparr>"
  from h have nb: "\<not> booted (reg w)" and bt: "Boot env w = Return () w'"
    and ok: "registry_ok env (reg w)" by simp_all
  from bt nb have l: "bootLoop env (eager (reg w)) ?w0 = Return () w'" by (simp add: Boot_def)
  from ok have e: "list_all (\<lambda>p. \<not> provIsDeferred env p) (eager (reg w))"
    by (simp add: registry_ok_def)
  from bootLoop_lifecycle [OF boots l e]
  have lc: "lifecycle env lg w' = (eagerBoots env lg w @ eager (reg w), True, eager (reg w), registered (reg w))"
    by simp
  then show "eagerBoots env lg w' = eagerBoots env lg w @ eager (reg w)"
    and b: "booted (reg w')" and "eager (reg w') = eager (reg w)"
    and "registered (reg w') = registered (reg w)"
    by (simp_all add: lifecycle_def)
  from lc ok show "registry_ok env (reg w')" by (simp add: lifecycle_def registry_ok_def)
  from b show "Boot env w' = Return () w'" by (simp add: Boot_def)
next
  assume "booted (reg w)"
  then show "Boot env w = Return () w" by (simp add: Boot_def)
next
  assume h: "\<not> registered (reg w) p \<and> \<not> provIsDeferred env p \<and> Register n env p w = Return () w'"
  let ?w1 = "w\<lparr>reg := (reg w)\<lparr>registered := (registered (reg w))(p := True)\<rparr>\<rparr>"
  from h have nr: "\<not> registered (reg w) p" and eg: "\<not> provIsDeferred env p"
    and rg0: "Register n env p w = Return () w'" by simp_all
  from rg0 nr eg have r: "andThen (provRegister env p ?w1)
                (\<lambda>_ w2.
                   let w3 = w2\<lparr>reg := (reg w2)\<lparr>eager := eager (reg w2) @ [p]\<rparr>\<rparr>
                   in if booted (reg w3) then provBoot env p w3 else Return () w3) = Return () w'"
    by (simp add: Register_def Let_def)
  from r [unfolded andThen_Return_iff] obtain u w2 where
    pr: "provRegister env p ?w1 = Return u w2"
    and rest: "(let w3 = w2\<lparr>reg := (reg w2)\<lparr>eager := eager (reg w2) @ [p]\<rparr>\<rparr>
                in if booted (reg w3) then provBoot env p w3 else Return () w3) = Return () w'"
    by blast
  from pr have pr': "provRegister env p ?w1 = Return () w2" by simp
  from registers pr' have 2: "lifecycle env lg w2 = lifecycle env lg ?w1" by blast
  let ?w3 = "w2\<lparr>reg := (reg w2)\<lparr>eager := eager (reg w2) @ [p]\<rparr>\<rparr>"
  have 3: "lifecycle env lg ?w3
      = (eagerBoots env lg w, booted (reg w), eager (reg w) @ [p], (registered (reg w))(p := True))"
    using 2 by (simp add: lifecycle_def)
  have 4: "lifecycle env lg w'
      = (eagerBoots env lg w @ (if booted (reg w) then [p] else []), booted (reg w),
         eager (reg w) @ [p], (registered (reg w))(p := True))"
  proof (cases "booted (reg w)")
    case True
    with 3 have "booted (reg ?w3)" by (simp add: lifecycle_def)
    with rest have "provBoot env p ?w3 = Return () w'" by (simp add: Let_def)
    with boots have "lifecycle env lg w' =
          (eagerBoots env lg ?w3 @ (if provIsDeferred env p then [] else [p]),
           booted (reg ?w3), eager (reg ?w3), registered (reg ?w3))"
      by blast
    with 3 h True show ?thesis by (simp add: lifecycle_def)
  next
    case False
    with 3 have "\<not> booted (reg ?w3)" by (simp add: lifecycle_def)
    with rest have "w' = ?w3" by (simp add: Let_def)
    with 3 False show ?thesis by simp
  qed
  from 4 show "eagerBoots env lg w' = eagerBoots env lg w @ (if booted (reg w) then [p] else [])"
    and "eager (reg w') = eager (reg w) @ [p]"
    and "booted (reg w') = booted (reg w)"
    and rg: "registered (reg w') = (registered (reg w))(p := True)"
    by (simp_all add: lifecycle_def)
  from rg show "Register n env p w' = Return () w'" by (simp add: Register_def)
  assume ok: "registry_ok env (reg w)"
  from ok h have "p \<notin> set (eager (reg w))"
    by (auto simp: registry_ok_def list_all_iff)
  with ok h 4 show "registry_ok env (reg w')"
    by (auto simp: registry_ok_def lifecycle_def list_all_iff)
next
  assume t: "\<forall>q s. \<exists>s'. provBoot env q s = Return () s'"
  show "\<exists>s'. Boot env w = Return () s'"
    using bootLoop_returns [OF t] by (simp add: Boot_def)
qed


lemma lifecycle_blind:
  "resolution_blind (lifecycle env lg)"
  "lifecycle env lg (w\<lparr>app := c\<rparr>) = lifecycle env lg w"
  by (simp_all add: resolution_blind_def lifecycle_def eagerBoots_def)

lemma svcEnv_builders: "builders_keep (lifecycle bootEnv lg) svcEnv"
proof -
  have "keeps (lifecycle bootEnv lg) w (Singleton (Suc 0) quietEnv ''svc'' (UserFactory 0) w)" for w
    by (rule Bind_keeps(2) [OF lifecycle_blind(1) lifecycle_blind(2) quietEnv_closures])
  then show ?thesis
    by (simp add: builders_keep_def svcEnv_def quietEnv_def)
qed

lemma bootEnv_registers:
  "\<forall>p w w'. provRegister bootEnv p w = Return () w' \<longrightarrow>
      lifecycle bootEnv lg w' = lifecycle bootEnv lg w"
proof (intro allI impI)
  fix p w w' assume r: "provRegister bootEnv p w = Return () w'"
  have "keeps (lifecycle bootEnv lg) w (provRegister svcEnv p w)"
    using svcEnv_builders [of lg] by (simp add: builders_keep_def)
  moreover have "provRegister svcEnv p w = Return () w'"
    using r by (simp add: bootEnv_def)
  ultimately show "lifecycle bootEnv lg w' = lifecycle bootEnv lg w"
    by simp
qed

lemma bootEnv_deferred: "provIsDeferred bootEnv p = (p = 2)"
  by (simp add: bootEnv_def svcEnv_def quietEnv_def)

lemma bootEnv_boots:
  "\<forall>p w w'. provBoot bootEnv p w = Return () w' \<longrightarrow>
      lifecycle bootEnv (\<lambda>u. u) w' =
        (eagerBoots bootEnv (\<lambda>u. u) w @ (if provIsDeferred bootEnv p then [] else [p]),
         booted (reg w), eager (reg w), registered (reg w))"
proof (intro allI impI)
  fix p w w' assume r: "provBoot bootEnv p w = Return () w'"
  consider "p = 2" | "p = 1" | "p \<noteq> 2 \<and> p \<noteq> 1" by blast
  then show "lifecycle bootEnv (\<lambda>u. u) w' =
        (eagerBoots bootEnv (\<lambda>u. u) w @ (if provIsDeferred bootEnv p then [] else [p]),
         booted (reg w), eager (reg w), registered (reg w))"
  proof cases
    case 1
    with r have "w' = w" by (simp add: bootEnv_def)
    with 1 show ?thesis by (simp add: lifecycle_def bootEnv_deferred)
  next
    case 2
    with r have "andThen (Make (Suc (Suc 0)) svcEnv ''svc'' w)
                   (\<lambda>_ w'. Return () (w'\<lparr>user := user w' @ [1]\<rparr>)) = Return () w'"
      by (simp add: bootEnv_def)
    from this [unfolded andThen_Return_iff] obtain x w1 where
      m: "Make (Suc (Suc 0)) svcEnv ''svc'' w = Return x w1" and w': "w' = w1\<lparr>user := user w1 @ [1]\<rparr>"
      by auto
    have "keeps (lifecycle bootEnv (\<lambda>u. u)) w (make (Suc (Suc 0)) svcEnv ''svc'' w)"
      by (rule make_keeps [OF lifecycle_blind(1) svcEnv_builders])
    with m have "lifecycle bootEnv (\<lambda>u. u) w1 = lifecycle bootEnv (\<lambda>u. u) w"
      by (simp add: Make_def)
    with 2 show ?thesis
      by (simp add: w' lifecycle_def eagerBoots_def bootEnv_deferred)
  next
    case 3
    with r have "w' = w\<lparr>user := user w @ [p]\<rparr>" by (simp add: bootEnv_def)
    with 3 show ?thesis by (simp add: lifecycle_def eagerBoots_def bootEnv_deferred)
  qed
qed

theorem Boot_once_witness:
  "andThen (Register (Suc 0) bootEnv 0 (flushedWorld []))
     (\<lambda>_ w. andThen (Register (Suc 0) bootEnv 1 w) (\<lambda>_ w. Register (Suc 0) bootEnv 2 w))
     = Return () threeRegistered
   \<and> user threeRegistered = []
   \<and> Boot bootEnv threeRegistered = Return () threeBooted
   \<and> user threeBooted = [0, 1]
   \<and> Boot bootEnv threeBooted = Return () threeBooted
   \<and> (case Register (Suc 0) bootEnv 3 threeBooted of
         Return _ w \<Rightarrow> user w = [0, 1, 3] \<and> eager (reg w) = [0, 1, 3]
             \<and> Register (Suc 0) bootEnv 3 w = Return () w
       | _ \<Rightarrow> False)"
proof -
  have start: "andThen (Register (Suc 0) bootEnv 0 (flushedWorld []))
     (\<lambda>_ w. andThen (Register (Suc 0) bootEnv 1 w) (\<lambda>_ w. Register (Suc 0) bootEnv 2 w))
     = Return () threeRegistered"
    by (simp add: eval_defs Register_def interceptDeferred_def bootEnv_def svcEnv_def threeRegistered_def)
  have boot: "Boot bootEnv threeRegistered = Return () threeBooted"
    by (simp add: eval_defs Boot_def bootEnv_def svcEnv_def threeRegistered_def threeBooted_def)
  have pre: "\<not> booted (reg threeRegistered) \<and> registry_ok bootEnv (reg threeRegistered)"
    by (simp add: threeRegistered_def registry_ok_def bootEnv_deferred)
  note t = Boot_once [OF bootEnv_boots bootEnv_registers]
  from t [where w = threeRegistered and w' = threeBooted] pre boot
  have a: "eagerBoots bootEnv (\<lambda>u. u) threeBooted
        = eagerBoots bootEnv (\<lambda>u. u) threeRegistered @ eager (reg threeRegistered)
      \<and> Boot bootEnv threeBooted = Return () threeBooted"
    by blast
  have late: "Register (Suc 0) bootEnv 3 threeBooted
      = Return () (threeBooted\<lparr>reg := (reg threeBooted)
            \<lparr>registered := (registered (reg threeBooted))(3 := True),
             eager := [0, 1, 3]\<rparr>, user := [0, 1, 3]\<rparr>)"
    by (simp add: Register_def bootEnv_def svcEnv_def quietEnv_def threeBooted_def)
  have pre3: "\<not> registered (reg threeBooted) 3 \<and> \<not> provIsDeferred bootEnv 3"
    by (simp add: threeBooted_def bootEnv_deferred)
  let ?w = "threeBooted\<lparr>reg := (reg threeBooted)
            \<lparr>registered := (registered (reg threeBooted))(3 := True),
             eager := [0, 1, 3]\<rparr>, user := [0, 1, 3]\<rparr>"
  from t [where w = threeBooted and p = 3 and n = "Suc 0" and w' = ?w] pre3 late
  have c: "Register (Suc 0) bootEnv 3 ?w = Return () ?w"
    by blast
  have u: "user threeRegistered = [] \<and> user threeBooted = [0, 1]"
    by (simp add: threeRegistered_def threeBooted_def)
  from start boot a late c u show ?thesis by simp
qed

section \<open>Rebound callbacks\<close>

lemma runRebound_records:
  assumes cbs: "\<forall>cb v w w'. reboundFn env cb v w = Return () w' \<longrightarrow> lg (user w') = lg (user w) @ [(cb, v)]"
  shows "runRebound env cs v w = Return () w' \<Longrightarrow> lg (user w') = lg (user w) @ map (\<lambda>cb. (cb, v)) cs"
proof (induction cs arbitrary: w)
  case Nil
  then show ?case by simp
next
  case (Cons c cs)
  from Cons.prems [unfolded runRebound.simps andThen_Return_iff] obtain u w1 where
    r: "reboundFn env c v w = Return u w1" and l: "runRebound env cs v w1 = Return () w'"
    by blast
  from r have "reboundFn env c v w = Return () w1" by simp
  with cbs have "lg (user w1) = lg (user w) @ [(c, v)]" by blast
  with Cons.IH [OF l] show ?case by simp
qed

lemma fireRebound_records:
  assumes cbs: "\<forall>cb v w w'. reboundFn env cb v w = Return () w' \<longrightarrow> lg (user w') = lg (user w) @ [(cb, v)]"
    and r: "fireRebound env x v w = Return () w'"
  shows "lg (user w') = lg (user w) @ map (\<lambda>cb. (cb, v)) (slice_at (reboundCallbacks (app w)) x)"
proof (cases "writer (mu (app w))")
  case True
  with r show ?thesis by (simp add: fireRebound_def reading_eq)
next
  case False
  with r have "runRebound env (slice_at (reboundCallbacks (app w)) x) v w = Return () w'"
    by (simp add: fireRebound_def reading_eq)
  from runRebound_records [OF cbs this] show ?thesis .
qed

lemma locked_Return_iff:
  assumes "locked body w = Return a w'"
  shows "\<exists>s. mu (app w) = unlocked
            \<and> body (w\<lparr>app := (app w)\<lparr>mu := \<lparr>writer = True, readers = 0\<rparr>\<rparr>\<rparr>) = Return a s
            \<and> writer (mu (app s))
            \<and> w' = s\<lparr>app := (app s)\<lparr>mu := (mu (app s))\<lparr>writer := False\<rparr>\<rparr>\<rparr>"
proof -
  have free: "mu (app w) = unlocked"
  proof (rule ccontr)
    assume "mu (app w) \<noteq> unlocked"
    then have "locked body w = Halt Deadlock w" by (rule locked_held)
    with assms show False by simp
  qed
  from assms have "deferring Unlock (body (w\<lparr>app := (app w)\<lparr>mu := \<lparr>writer = True, readers = 0\<rparr>\<rparr>\<rparr>)) = Return a w'"
    by (simp add: locked_free [OF free])
  from deferring_Unlock_Return [OF this] free show ?thesis by blast
qed

text \<open>
  Claim C10. The rebound callbacks record their own calls, and the closures that
  resolution calls leave that record and the table of rebound callbacks alone.
  \<^verbatim>\<open>Rebinding\<close> appends the callback to the table entry of the name as passed, with
  no look into the alias table; on a container whose table of rebound callbacks is nil
  it panics. \<^verbatim>\<open>fireRebound\<close>, when it returns, has called
  exactly the callbacks registered under the name as passed, in order, with the value.
  \<^verbatim>\<open>Bind\<close> and \<^verbatim>\<open>Singleton\<close>, when they return, have called exactly the callbacks
  registered under the name they were passed, once each with one and the same value, if
  a non-nil instance was cached for the canonical key, and none otherwise; \<^verbatim>\<open>Extend\<close>
  likewise, if an instance was cached. So a callback registered under an alias only is
  not called when the canonical name is passed, and the other way round.
  \<^verbatim>\<open>Instance\<close> calls no callback under any name: it blocks before it reads the
  table, and never returns.
\<close>

theorem rebound_by_literal_name:
  assumes cbs: "\<forall>cb v w w'. reboundFn env cb v w = Return () w' \<longrightarrow> lg (user w') = lg (user w) @ [(cb, v)]"
    and builders: "builders_keep (\<lambda>w. (lg (user w), reboundCallbacks (app w))) env"
  shows "(mu (app w) = unlocked \<and> reboundCallbacks (app w) = None \<longrightarrow>
            Rebinding x cb w = Panic NilMapWrite w)
       \<and> (mu (app w) = unlocked \<and> reboundCallbacks (app w) \<noteq> None \<longrightarrow>
            Rebinding x cb w =
              Return () (w\<lparr>app := (app w)\<lparr>reboundCallbacks :=
                            mapAssign (reboundCallbacks (app w)) x
                              (slice_at (reboundCallbacks (app w)) x @ [cb])\<rparr>\<rparr>))
       \<and> (fireRebound env x v w = Return () w' \<longrightarrow>
            lg (user w') = lg (user w) @ map (\<lambda>cb. (cb, v)) (slice_at (reboundCallbacks (app w)) x))
       \<and> ((if sing then Singleton n env x f w else Bind n env x f w) = Return () w' \<longrightarrow>
            (\<exists>y. lg (user w') = lg (user w)
                   @ (if (case mapRead (instances (app w)) (canonical (app w) x) of
                            Some i \<Rightarrow> i \<noteq> VNil | None \<Rightarrow> False)
                      then map (\<lambda>cb. (cb, y)) (slice_at (reboundCallbacks (app w)) x) else [])))
       \<and> (Extend env x d w = Return () w' \<longrightarrow>
            (\<exists>y. lg (user w') = lg (user w)
                   @ (if mapRead (instances (app w)) (canonical (app w) x) = None then []
                      else map (\<lambda>cb. (cb, y)) (slice_at (reboundCallbacks (app w)) x))))
       \<and> (mu (app w) = unlocked \<and> instances (app w) \<noteq> None \<longrightarrow>
            (\<exists>s. Instance env x v w = Halt Deadlock s \<and> user s = user w))
       \<and> Instance env x v w \<noteq> Return () w'"
proof (intro conjI impI)
  assume h: "mu (app w) = unlocked \<and> reboundCallbacks (app w) = None"
  then have free: "mu (app w) = unlocked" and nil: "reboundCallbacks (app w) = None" by simp_all
  show "Rebinding x cb w = Panic NilMapWrite w"
    unfolding Rebinding_def locked_free [OF free]
    by (simp add: nil Unlock_def free [unfolded unlocked_def, symmetric])
next
  assume h: "mu (app w) = unlocked \<and> reboundCallbacks (app w) \<noteq> None"
  then have free: "mu (app w) = unlocked" and made: "reboundCallbacks (app w) \<noteq> None" by simp_all
  show "Rebinding x cb w =
              Return () (w\<lparr>app := (app w)\<lparr>reboundCallbacks :=
                            mapAssign (reboundCallbacks (app w)) x
                              (slice_at (reboundCallbacks (app w)) x @ [cb])\<rparr>\<rparr>)"
    unfolding Rebinding_def locked_free [OF free]
    by (simp add: made Unlock_def free [unfolded unlocked_def, symmetric])
next
  assume "fireRebound env x v w = Return () w'"
  then show "lg (user w') = lg (user w) @ map (\<lambda>cb. (cb, v)) (slice_at (reboundCallbacks (app w)) x)"
    by (rule fireRebound_records [OF cbs])
next
  let ?g = "\<lambda>w. (lg (user w), reboundCallbacks (app w))"
  let ?wb = "case mapRead (instances (app w)) (canonical (app w) x) of Some i \<Rightarrow> i \<noteq> VNil | None \<Rightarrow> False"
  assume r: "(if sing then Singleton n env x f w else Bind n env x f w) = Return () w'"
  then have l: "locked (bind (make n env) env x f sing) w = Return () w'"
    by (simp add: Singleton_def Bind_def split: if_splits)
  from locked_Return_iff [OF l] obtain s where
    free: "mu (app w) = unlocked"
    and b: "bind (make n env) env x f sing (w\<lparr>app := (app w)\<lparr>mu := \<lparr>writer = True, readers = 0\<rparr>\<rparr>\<rparr>) = Return () s"
    and w': "w' = s\<lparr>app := (app s)\<lparr>mu := (mu (app s))\<lparr>writer := False\<rparr>\<rparr>\<rparr>"
    by blast
  let ?wl = "w\<lparr>app := (app w)\<lparr>mu := \<lparr>writer = True, readers = 0\<rparr>\<rparr>\<rparr>"
  let ?k = "canonical (app w) x"
  let ?w1 = "?wl\<lparr>app := (app ?wl)\<lparr>instances := mapDelete (instances (app ?wl)) ?k\<rparr>\<rparr>"
  let ?w2 = "?w1\<lparr>app := (app ?w1)\<lparr>bindings := mapAssign (bindings (app ?w1)) ?k \<lparr>factory = f, singleton = sing\<rparr>\<rparr>\<rparr>"
  have made: "bindings (app ?w1) \<noteq> None"
  proof
    assume "bindings (app ?w1) = None"
    then have "bind (make n env) env x f sing ?wl = Panic NilMapWrite ?w1"
      by (simp add: bind_def Let_def)
    with b show False by simp
  qed
  then have made': "bindings (app w) \<noteq> None" by simp
  show "\<exists>y. lg (user w') = lg (user w) @ (if ?wb then map (\<lambda>cb. (cb, y)) (slice_at (reboundCallbacks (app w)) x) else [])"
  proof (cases ?wb)
    case False
    then have "bind (make n env) env x f sing ?wl = Return () ?w2"
      by (simp add: bind_def Let_def made')
    with b have "s = ?w2" by simp
    with False show ?thesis by (simp add: w')
  next
    case True
    then have "bind (make n env) env x f sing ?wl =
        andThen (Unlock ?w2)
          (\<lambda>_ w3. andThen (make n env x w3)
             (\<lambda>v w4. andThen (fireRebound env x v w4) (\<lambda>_ w5. Lock w5)))"
      by (simp add: bind_def Let_def made')
    with b have c: "andThen (Unlock ?w2)
          (\<lambda>_ w3. andThen (make n env x w3)
             (\<lambda>v w4. andThen (fireRebound env x v w4) (\<lambda>_ w5. Lock w5))) = Return () s"
      by simp
    from c [unfolded andThen_Return_iff] obtain u w3 y w4 u' w5 where
      ul: "Unlock ?w2 = Return u w3" and mk: "make n env x w3 = Return y w4"
      and fr: "fireRebound env x y w4 = Return u' w5" and lk: "Lock w5 = Return () s"
      by blast
    from ul have g3: "?g w3 = ?g w" by (auto simp: Unlock_def split: if_splits)
    have "keeps ?g w3 (make n env x w3)"
      by (rule make_keeps [OF _ builders]) (simp add: resolution_blind_def)
    with mk g3 have g4: "?g w4 = ?g w" by simp
    from fr have "fireRebound env x y w4 = Return () w5" by simp
    from fireRebound_records [OF cbs this] g4
    have "lg (user w5) = lg (user w) @ map (\<lambda>cb. (cb, y)) (slice_at (reboundCallbacks (app w)) x)"
      by simp
    moreover from lk have "user s = user w5" by (auto simp: Lock_def split: if_splits)
    ultimately have "lg (user w') = lg (user w) @ map (\<lambda>cb. (cb, y)) (slice_at (reboundCallbacks (app w)) x)"
      by (simp add: w')
    with True show ?thesis by auto
  qed
next
  let ?g = "\<lambda>w. (lg (user w), reboundCallbacks (app w))"
  assume r: "Extend env x d w = Return () w'"
  from locked_Return_iff [OF r [unfolded Extend_def]] obtain s where
    free: "mu (app w) = unlocked"
    and b: "(let k = canonical (app (w\<lparr>app := (app w)\<lparr>mu := \<lparr>writer = True, readers = 0\<rparr>\<rparr>\<rparr>)) x
          in if extenders (app (w\<lparr>app := (app w)\<lparr>mu := \<lparr>writer = True, readers = 0\<rparr>\<rparr>\<rparr>)) = None
             then Panic NilMapWrite (w\<lparr>app := (app w)\<lparr>mu := \<lparr>writer = True, readers = 0\<rparr>\<rparr>\<rparr>)
             else
               (let w2 = (w\<lparr>app := (app w)\<lparr>mu := \<lparr>writer = True, readers = 0\<rparr>\<rparr>\<rparr>)
                           \<lparr>app := (app (w\<lparr>app := (app w)\<lparr>mu := \<lparr>writer = True, readers = 0\<rparr>\<rparr>\<rparr>))\<lparr>extenders :=
                              mapAssign (extenders (app (w\<lparr>app := (app w)\<lparr>mu := \<lparr>writer = True, readers = 0\<rparr>\<rparr>\<rparr>))) k
                                (slice_at (extenders (app (w\<lparr>app := (app w)\<lparr>mu := \<lparr>writer = True, readers = 0\<rparr>\<rparr>\<rparr>))) k @ [d])\<rparr>\<rparr>
                in case mapRead (instances (app w2)) k of
                     None \<Rightarrow> Return () w2
                   | Some inst \<Rightarrow>
                       andThen (applyExtenders env k inst w2)
                         (\<lambda>extended w3.
                            if instances (app w3) = None then Panic NilMapWrite w3
                            else
                              andThen
                                (Unlock (w3\<lparr>app := (app w3)\<lparr>instances :=
                                               mapAssign (instances (app w3)) k extended\<rparr>\<rparr>))
                                (\<lambda>_ w4. andThen (fireRebound env x extended w4)
                                           (\<lambda>_ w5. Lock w5))))) = Return () s"
    and w': "w' = s\<lparr>app := (app s)\<lparr>mu := (mu (app s))\<lparr>writer := False\<rparr>\<rparr>\<rparr>"
    by blast
  let ?k = "canonical (app w) x"
  let ?w2 = "w\<lparr>app := (app w)\<lparr>mu := \<lparr>writer = True, readers = 0\<rparr>,
                extenders := mapAssign (extenders (app w)) ?k (slice_at (extenders (app w)) ?k @ [d])\<rparr>\<rparr>"
  have made: "extenders (app w) \<noteq> None"
  proof
    assume "extenders (app w) = None"
    with b show False by (simp add: Let_def)
  qed
  from b have b2: "(case mapRead (instances (app w)) ?k of
                     None \<Rightarrow> Return () ?w2
                   | Some inst \<Rightarrow>
                       andThen (applyExtenders env ?k inst ?w2)
                         (\<lambda>extended w3.
                            if instances (app w3) = None then Panic NilMapWrite w3
                            else
                              andThen
                                (Unlock (w3\<lparr>app := (app w3)\<lparr>instances :=
                                               mapAssign (instances (app w3)) ?k extended\<rparr>\<rparr>))
                                (\<lambda>_ w4. andThen (fireRebound env x extended w4)
                                           (\<lambda>_ w5. Lock w5)))) = Return () s"
    by (simp add: Let_def made)
  show "\<exists>y. lg (user w') = lg (user w)
                   @ (if mapRead (instances (app w)) (canonical (app w) x) = None then []
                      else map (\<lambda>cb. (cb, y)) (slice_at (reboundCallbacks (app w)) x))"
  proof (cases "mapRead (instances (app w)) ?k")
    case None
    with b2 have "s = ?w2" by simp
    with None show ?thesis by (simp add: w')
  next
    case (Some inst)
    with b2 have c: "andThen (applyExtenders env ?k inst ?w2)
                         (\<lambda>extended w3.
                            if instances (app w3) = None then Panic NilMapWrite w3
                            else
                              andThen
                                (Unlock (w3\<lparr>app := (app w3)\<lparr>instances :=
                                               mapAssign (instances (app w3)) ?k extended\<rparr>\<rparr>))
                                (\<lambda>_ w4. andThen (fireRebound env x extended w4)
                                           (\<lambda>_ w5. Lock w5))) = Return () s"
      by simp
    from c [unfolded andThen_Return_iff] obtain y w3 where
      ae: "applyExtenders env ?k inst ?w2 = Return y w3"
      and rest: "(if instances (app w3) = None then Panic NilMapWrite w3
                  else andThen (Unlock (w3\<lparr>app := (app w3)\<lparr>instances := mapAssign (instances (app w3)) ?k y\<rparr>\<rparr>))
                         (\<lambda>_ w4. andThen (fireRebound env x y w4) (\<lambda>_ w5. Lock w5))) = Return () s"
      by blast
    from rest have rest': "andThen (Unlock (w3\<lparr>app := (app w3)\<lparr>instances := mapAssign (instances (app w3)) ?k y\<rparr>\<rparr>))
                         (\<lambda>_ w4. andThen (fireRebound env x y w4) (\<lambda>_ w5. Lock w5)) = Return () s"
      by (simp split: if_splits)
    from rest' [unfolded andThen_Return_iff] obtain u w4 u' w5 where
      ul: "Unlock (w3\<lparr>app := (app w3)\<lparr>instances := mapAssign (instances (app w3)) ?k y\<rparr>\<rparr>) = Return u w4"
      and fr: "fireRebound env x y w4 = Return u' w5" and lk: "Lock w5 = Return () s"
      by blast
    have ext: "\<forall>e v w. keeps ?g w (extenderFn env e v w)"
      using builders by (simp add: builders_keep_def)
    have "keeps ?g ?w2 (applyExtenders env ?k inst ?w2)"
      unfolding applyExtenders_def by (rule runExtenders_keeps [OF ext])
    with ae have g3: "?g w3 = ?g w" by simp
    from ul g3 have g4: "?g w4 = ?g w" by (auto simp: Unlock_def split: if_splits)
    from fr have "fireRebound env x y w4 = Return () w5" by simp
    from fireRebound_records [OF cbs this] g4
    have "lg (user w5) = lg (user w) @ map (\<lambda>cb. (cb, y)) (slice_at (reboundCallbacks (app w)) x)"
      by simp
    moreover from lk have "user s = user w5" by (auto simp: Lock_def split: if_splits)
    ultimately have "lg (user w') = lg (user w) @ map (\<lambda>cb. (cb, y)) (slice_at (reboundCallbacks (app w)) x)"
      by (simp add: w')
    with Some show ?thesis by auto
  qed
next
  assume h: "mu (app w) = unlocked \<and> instances (app w) \<noteq> None"
  then have free: "mu (app w) = unlocked" and made: "instances (app w) \<noteq> None" by simp_all
  from Instance_blocks [OF free made, of env x v]
  show "\<exists>s. Instance env x v w = Halt Deadlock s \<and> user s = user w" by simp
next
  show "Instance env x v w \<noteq> Return () w'" by (rule Instance_never_returns)
qed


lemma recEnv_records:
  "\<forall>cb v w w'. reboundFn recEnv cb v w = Return () w' \<longrightarrow> (\<lambda>u. u) (user w') = (\<lambda>u. u) (user w) @ [(cb, v)]"
  by (auto simp: recEnv_def)

lemma recEnv_builders: "builders_keep g recEnv"
  by (simp add: builders_keep_def recEnv_def quietEnv_def)

theorem rebound_by_literal_name_witness:
  "andThen (Alias ''database'' ''db'' (madeWorld []))
     (\<lambda>_ w. andThen (Singleton (Suc 0) recEnv ''database'' (UserFactory 7) w)
        (\<lambda>_ w. andThen (Make (Suc 0) recEnv ''database'' w)
           (\<lambda>_ w. andThen (Rebinding ''db'' 0 w) (\<lambda>_ w. Rebinding ''database'' 1 w))))
     = Return () dbHeap
   \<and> Rebinding ''db'' 0 (flushedWorld ([] :: (nat \<times> val) list)) = Panic NilMapWrite (flushedWorld [])
   \<and> canonical (app dbHeap) ''db'' = ''database''
   \<and> (case Extend recEnv ''database'' 3 dbHeap of Return _ w \<Rightarrow> user w = [(1, VPtr 7)] | _ \<Rightarrow> False)
   \<and> (case Extend recEnv ''db'' 3 dbHeap of Return _ w \<Rightarrow> user w = [(0, VPtr 7)] | _ \<Rightarrow> False)
   \<and> (case Singleton (Suc (Suc 0)) recEnv ''database'' (UserFactory 5) dbHeap of
         Return _ w \<Rightarrow> user w = [(1, VPtr 5)] | _ \<Rightarrow> False)
   \<and> (case Bind (Suc (Suc 0)) recEnv ''db'' (UserFactory 5) dbHeap of
         Return _ w \<Rightarrow> user w = [(0, VPtr 5)] | _ \<Rightarrow> False)
   \<and> (case Instance recEnv ''database'' (VPtr 8) dbHeap of Halt h w \<Rightarrow> h = Deadlock \<and> user w = [] | _ \<Rightarrow> False)"
proof -
  note defs = eval_defs recEnv_def dbHeap_def madeWorld_def madeContainer_def
  have build: "andThen (Alias ''database'' ''db'' (madeWorld []))
     (\<lambda>_ w. andThen (Singleton (Suc 0) recEnv ''database'' (UserFactory 7) w)
        (\<lambda>_ w. andThen (Make (Suc 0) recEnv ''database'' w)
           (\<lambda>_ w. andThen (Rebinding ''db'' 0 w) (\<lambda>_ w. Rebinding ''database'' 1 w))))
     = Return () dbHeap"
    by (simp add: defs Alias_def Rebinding_def fun_upd_twist)
  have c: "canonical (app dbHeap) ''db'' = ''database''"
    by (simp add: defs)
  have facts: "mu (app dbHeap) = unlocked" "instances (app dbHeap) \<noteq> None"
    "mapRead (instances (app dbHeap)) (canonical (app dbHeap) ''database'') = Some (VPtr 7)"
    "slice_at (reboundCallbacks (app dbHeap)) ''database'' = [1]"
    "user dbHeap = []"
    by (simp_all add: defs)
  note t = rebound_by_literal_name [OF recEnv_records recEnv_builders]
  obtain w1 where e1: "Extend recEnv ''database'' 3 dbHeap = Return () w1"
    by (simp add: defs Extend_def)
  from t [where w = dbHeap and x = "''database''" and d = 3 and w' = w1] e1
  have "\<exists>y. user w1 = user dbHeap
      @ (if mapRead (instances (app dbHeap)) (canonical (app dbHeap) ''database'') = None then []
         else map (\<lambda>cb. (cb, y)) (slice_at (reboundCallbacks (app dbHeap)) ''database''))"
    by blast
  with facts have fired: "\<exists>y. user w1 = [(1, y)]" by simp
  have x1: "(case Extend recEnv ''database'' 3 dbHeap of Return _ w \<Rightarrow> user w = [(1, VPtr 7)] | _ \<Rightarrow> False)"
    by (simp add: defs Extend_def)
  have x2: "(case Extend recEnv ''db'' 3 dbHeap of Return _ w \<Rightarrow> user w = [(0, VPtr 7)] | _ \<Rightarrow> False)"
    by (simp add: defs Extend_def)
  have x3: "(case Singleton (Suc (Suc 0)) recEnv ''database'' (UserFactory 5) dbHeap of
         Return _ w \<Rightarrow> user w = [(1, VPtr 5)] | _ \<Rightarrow> False)"
    by (simp add: defs)
  have x4: "(case Bind (Suc (Suc 0)) recEnv ''db'' (UserFactory 5) dbHeap of
         Return _ w \<Rightarrow> user w = [(0, VPtr 5)] | _ \<Rightarrow> False)"
    by (simp add: defs)
  from t [where w = dbHeap and x = "''database''" and v = "VPtr 8" and w' = dbHeap] facts(1,2)
  have "\<exists>s. Instance recEnv ''database'' (VPtr 8) dbHeap = Halt Deadlock s \<and> user s = user dbHeap"
    by blast
  then obtain s where i: "Instance recEnv ''database'' (VPtr 8) dbHeap = Halt Deadlock s" and u: "user s = []"
    using facts(5) by auto
  from i u have x5: "(case Instance recEnv ''database'' (VPtr 8) dbHeap of
      Halt h w \<Rightarrow> h = Deadlock \<and> user w = [] | _ \<Rightarrow> False)"
    by simp
  have nilp: "mu (app (flushedWorld ([] :: (nat \<times> val) list))) = unlocked
      \<and> reboundCallbacks (app (flushedWorld ([] :: (nat \<times> val) list))) = None"
    by (simp add: flushedWorld_def flushedContainer_def)
  have nil: "Rebinding ''db'' 0 (flushedWorld ([] :: (nat \<times> val) list)) = Panic NilMapWrite (flushedWorld [])"
    by (rule t [where w = "flushedWorld []", THEN conjunct1, THEN mp, OF nilp])
  from build nil c x1 x2 x3 x4 x5 show ?thesis by simp
qed

section \<open>Construction\<close>

lemma New_blocks:
  "New env u =
     Halt Deadlock
       \<lparr>app = madeContainer\<lparr>mu := \<lparr>writer = True, readers = 0\<rparr>,
                              instances := Some [''container'' \<mapsto> VContainer]\<rparr>,
        reg = NewProviderRegistry, user = u\<rparr>"
  by (simp add: New_def Instance_def madeContainer_def eval_defs)

end
